theory Spec2Isabelle
  imports Main "HOL-Library.AList" "HOL-Library.Char_ord" "HOL-Library.List_Lexorder"
begin

section \<open>The wallpaper service of tomato-tab (src/lib/optimizedWallpaperService.ts)\<close>

text \<open>
  The service is a singleton object: three in-memory maps (promises of calls in progress,
  retry timers, retry counts), the binary store \<^verbatim>\<open>indexedDBCache\<close> and \<^verbatim>\<open>localStorage\<close>.
  Each method is embedded as a function from an environment (what the collaborators
  outside this file answer: the clock, the build configuration, the network, the blob
  URL allocator, the custom wallpaper manager, whether the binary store rejects) and the
  service state to the new state and, where the method returns something, a result or a
  thrown error. The logger and the error handler only report; they are left out.
\<close>

subsection \<open>JavaScript string primitives\<close>

text \<open>\<^verbatim>\<open>s.startsWith(p)\<close>\<close>

definition startsWith :: "string \<Rightarrow> string \<Rightarrow> bool" where
  "startsWith s p = (take (length p) s = p)"

text \<open>\<^verbatim>\<open>s.includes(p)\<close>: \<open>p\<close> occurs in \<open>s\<close> at some position.\<close>

fun str_includes :: "string \<Rightarrow> string \<Rightarrow> bool" where
  "str_includes [] p = (p = [])"
| "str_includes (c # cs) p = (startsWith (c # cs) p \<or> str_includes cs p)"

text \<open>\<^verbatim>\<open>s.replace(/\/$/, '')\<close>: one trailing slash is dropped.\<close>

definition dropTrailingSlash :: "string \<Rightarrow> string" where
  "dropTrailingSlash s = (if s \<noteq> [] \<and> last s = CHR ''/'' then butlast s else s)"

text \<open>The regular expression \<^verbatim>\<open>/(\d{4}-\d{2}-\d{2})/\<close>: the leftmost match.\<close>

definition isDigit :: "char \<Rightarrow> bool" where
  "isDigit c = (CHR ''0'' \<le> c \<and> c \<le> CHR ''9'')"

fun dateAtStart :: "string \<Rightarrow> bool" where
  "dateAtStart (y1 # y2 # y3 # y4 # s1 # m1 # m2 # s2 # d1 # d2 # rest) =
     (isDigit y1 \<and> isDigit y2 \<and> isDigit y3 \<and> isDigit y4 \<and> s1 = CHR ''-'' \<and>
      isDigit m1 \<and> isDigit m2 \<and> s2 = CHR ''-'' \<and> isDigit d1 \<and> isDigit d2)"
| "dateAtStart _ = False"

fun matchDate :: "string \<Rightarrow> string option" where
  "matchDate [] = None"
| "matchDate (c # cs) = (if dateAtStart (c # cs) then Some (take 10 (c # cs)) else matchDate cs)"

subsection \<open>Calendar dates\<close>

text \<open>
  A JavaScript \<^verbatim>\<open>Date\<close> as far as the service looks at it: the local calendar day, as year,
  month and day of the month. \<^verbatim>\<open>d.setDate(d.getDate() - n)\<close> moves a date back by \<open>n\<close> days of
  the Gregorian calendar.
\<close>

type_synonym date = "nat \<times> nat \<times> nat"

definition isLeapYear :: "nat \<Rightarrow> bool" where
  "isLeapYear y = (y mod 4 = 0 \<and> (y mod 100 \<noteq> 0 \<or> y mod 400 = 0))"

definition daysInMonth :: "nat \<Rightarrow> nat \<Rightarrow> nat" where
  "daysInMonth y m =
     (if m = 2 then (if isLeapYear y then 29 else 28)
      else if m = 4 \<or> m = 6 \<or> m = 9 \<or> m = 11 then 30 else 31)"

fun dayBefore :: "date \<Rightarrow> date" where
  "dayBefore (y, m, d) =
     (if 1 < d then (y, m, d - 1)
      else if 1 < m then (y, m - 1, daysInMonth y (m - 1))
      else (y - 1, 12, 31))"

fun daysAgo :: "nat \<Rightarrow> date \<Rightarrow> date" where
  "daysAgo 0 dt = dt"
| "daysAgo (Suc n) dt = dayBefore (daysAgo n dt)"

text \<open>
  Modelled from the spec: the date format of \<^verbatim>\<open>getLocalDateString\<close>, whose file
  (\<^verbatim>\<open>src/lib/dateUtils.ts\<close>) is not among the sources; the spec gives it as the local date
  \<^verbatim>\<open>YYYY-MM-DD\<close>: four digits of the year, two of the month, two of the day.
\<close>

definition digitChar :: "nat \<Rightarrow> char" where
  "digitChar n = ''0123456789'' ! n"

definition pad2 :: "nat \<Rightarrow> string" where
  "pad2 n = [digitChar (n div 10), digitChar (n mod 10)]"

definition pad4 :: "nat \<Rightarrow> string" where
  "pad4 n = pad2 (n div 100) @ pad2 (n mod 100)"

definition isoDate :: "nat \<Rightarrow> nat \<Rightarrow> nat \<Rightarrow> string" where
  "isoDate y m d = pad4 y @ ''-'' @ pad2 m @ ''-'' @ pad2 d"

fun getLocalDateString :: "date \<Rightarrow> string" where
  "getLocalDateString (y, m, d) = isoDate y m d"

subsection \<open>Data\<close>

text \<open>
  A Blob, as far as the service looks at it: an image payload has a size in bytes (the
  tag stands for its bytes), a metadata payload is the JSON text
  \<^verbatim>\<open>{"originalUrl": u}\<close> that \<^verbatim>\<open>downloadAndCache\<close> writes and
  \<^verbatim>\<open>getOriginalUrl\<close> parses.
\<close>

datatype blob = ImageBlob nat string | MetadataBlob string

fun blob_size :: "blob \<Rightarrow> nat" where
  "blob_size (ImageBlob n bytes) = n"
| "blob_size (MetadataBlob u) = 18 + length u"

datatype error =
    NetworkError | InvalidErrorResponse | EmptyDownload | StorageError | BlobUrlError
  | CustomWallpaperError

text \<open>A JavaScript \<^verbatim>\<open>Map<string, V>\<close> and the two key-value stores: association lists
  read with \<^const>\<open>map_of\<close>, written with \<^const>\<open>AList.update\<close> and \<^const>\<open>AList.delete\<close>.\<close>

type_synonym 'v jsmap = "(string \<times> 'v) list"

text \<open>The closure handed to \<^verbatim>\<open>setTimeout\<close> by \<^verbatim>\<open>scheduleRetry\<close>: its delay and the two
  variables it captures.\<close>

record timer =
  delayMs :: nat
  capturedRetryCount :: nat
  timerResolution :: string

record cached =
  cached_url :: string
  cached_isToday :: bool
  cached_originalUrl :: "string option"

record wallpaper =
  url :: string
  isFromCache :: bool
  isToday :: bool
  needsUpdate :: bool
  originalUrl :: "string option"

record downloaded =
  blobUrl :: string
  dl_originalUrl :: string
  isFallback :: bool

record request =
  req_url :: string
  req_headers :: "(string \<times> string) list"

record response =
  contentType :: string
  wallpaperSource :: string
  body :: blob

text \<open>
  An operation that waits. \<open>Called\<close>: \<^verbatim>\<open>_getWallpaperInternal\<close> at its first await, with the
  promise the callers of \<^verbatim>\<open>getWallpaper\<close> wait for and the local variables \<^verbatim>\<open>shouldRefresh\<close> and
  \<^verbatim>\<open>todayKey\<close> (of \<^verbatim>\<open>getSmartCache\<close>) computed on the way there (the custom branch computes
  neither and uses neither). \<open>Foreground\<close>: \<^verbatim>\<open>_getWallpaperInternal\<close> at the download it has
  requested, with that promise and the local variables \<^verbatim>\<open>wallpaperUrl\<close>, \<^verbatim>\<open>shouldRefresh\<close>,
  \<^verbatim>\<open>fallbackCache\<close>. \<open>Background\<close>: \<^verbatim>\<open>updateWallpaperInBackground\<close> at the download it has
  requested.
\<close>

datatype task =
    Called nat string bool string
  | Foreground nat string string bool "cached option"
  | Background string string

fun task_resolution :: "task \<Rightarrow> string" where
  "task_resolution (Called p resolution shouldRefresh todayKey) = resolution"
| "task_resolution (Foreground p resolution wallpaperUrl shouldRefresh fallbackCache) = resolution"
| "task_resolution (Background resolution wallpaperUrl) = resolution"

fun is_foreground :: "task \<Rightarrow> bool" where
  "is_foreground (Called p resolution shouldRefresh todayKey) = True"
| "is_foreground (Foreground p resolution wallpaperUrl shouldRefresh fallbackCache) = True"
| "is_foreground (Background resolution wallpaperUrl) = False"

text \<open>What the collaborators answer while one step of the service runs.\<close>

record env =
  now :: date
  objectPrototype :: "string \<Rightarrow> string option"
  supabaseUrl :: string
  anonKey :: string
  customWallpaper :: "error + string option"
  netResponse :: "error + response"
  createBlobUrl :: "blob \<Rightarrow> error + string"
  encodeURIComponent :: "string \<Rightarrow> string"
  idbReadFails :: bool
  idbWriteFails :: bool
  idbDeleteFails :: bool

text \<open>
  \<open>now\<close> is the local date \<^verbatim>\<open>new Date()\<close> gives; \<open>objectPrototype\<close> gives, for a property name
  every object inherits (\<^verbatim>\<open>constructor\<close>, \<^verbatim>\<open>toString\<close>, ...), the text its value has in a
  template string; \<open>netResponse\<close> is how the request of the running operation settles
  (every operation issues at most one).
\<close>

text \<open>\<^verbatim>\<open>getLocalDateString()\<close> of now, and of the dates \<^verbatim>\<open>yesterday\<close> of
  \<^verbatim>\<open>getYesterdayCacheKey\<close> and \<^verbatim>\<open>threeDaysAgo\<close> of \<^verbatim>\<open>cleanupExpiredCache\<close>.\<close>

definition today :: "env \<Rightarrow> string" where
  "today e = getLocalDateString (now e)"

definition yesterday :: "env \<Rightarrow> string" where
  "yesterday e = getLocalDateString (daysAgo 1 (now e))"

definition threeDaysAgo :: "env \<Rightarrow> string" where
  "threeDaysAgo e = getLocalDateString (daysAgo 3 (now e))"

record state =
  idb :: "blob jsmap"
  localStorage :: "string jsmap"
  retryTimers :: "timer jsmap"
  retryCounts :: "nat jsmap"
  loadingPromises :: "nat jsmap"
  tasks :: "task list"
  requests :: "request list"
  settled :: "(nat \<times> (error + wallpaper)) list"
  calls :: "nat list"
  nextPromise :: nat

text \<open>
  \<open>tasks\<close> are the operations that wait, \<open>requests\<close> the network requests issued so far,
  \<open>settled\<close> the outcomes of the promises of \<^verbatim>\<open>_getWallpaperInternal\<close> that have settled,
  \<open>calls\<close> the promise each call of \<^verbatim>\<open>getWallpaper\<close> waits for, in call order.
\<close>

definition init :: state where
  "init = \<lparr>idb = [], localStorage = [], retryTimers = [], retryCounts = [],
     loadingPromises = [], tasks = [], requests = [], settled = [], calls = [],
     nextPromise = 0\<rparr>"

subsection \<open>Constants and keys\<close>

definition RETRY_DELAYS_MS :: "nat list" where
  "RETRY_DELAYS_MS = [30 * 1000, 60 * 1000, 120 * 1000, 240 * 1000]"

definition MAX_RETRY_COUNT :: nat where
  "MAX_RETRY_COUNT = 8"

definition fallbackImage :: string where
  "fallbackImage = ''/icon/favicon.png''"

definition cacheKeyFor :: "string \<Rightarrow> string \<Rightarrow> string" where
  "cacheKeyFor resolution date = ''wallpaper-optimized:'' @ resolution @ ''-'' @ date"

definition getTodayCacheKey :: "env \<Rightarrow> string \<Rightarrow> string" where
  "getTodayCacheKey e resolution = cacheKeyFor resolution (today e)"

definition getYesterdayCacheKey :: "env \<Rightarrow> string \<Rightarrow> string" where
  "getYesterdayCacheKey e resolution = cacheKeyFor resolution (yesterday e)"

definition successKey :: "string \<Rightarrow> string" where
  "successKey resolution = ''wallpaper-update-success-'' @ resolution"

definition retryKey :: "string \<Rightarrow> string" where
  "retryKey resolution = ''retry-'' @ resolution"

definition loadingKey :: "string \<Rightarrow> string" where
  "loadingKey resolution = ''loading-'' @ resolution"

text \<open>Truthiness of a \<^verbatim>\<open>string | undefined\<close>: the empty string is falsy.\<close>

fun truthy :: "string option \<Rightarrow> bool" where
  "truthy None = False"
| "truthy (Some u) = (u \<noteq> [])"

subsection \<open>The binary store (indexedDBCache)\<close>

definition idb_get :: "env \<Rightarrow> state \<Rightarrow> string \<Rightarrow> error + blob option" where
  "idb_get e s key = (if idbReadFails e then Inl StorageError else Inr (map_of (idb s) key))"

definition idb_getAllKeys :: "env \<Rightarrow> state \<Rightarrow> error + string list" where
  "idb_getAllKeys e s = (if idbReadFails e then Inl StorageError else Inr (map fst (idb s)))"

text \<open>\<^verbatim>\<open>indexedDBCache.set(k, v, ttl).then(...).catch(...)\<close>: never awaited, a rejected write is
  logged and dropped. The write is taken to land at once when it lands. The time to live
  passed along is the store's business (the store is not among the sources): an entry
  stays until it is deleted.\<close>

definition idb_set :: "env \<Rightarrow> state \<Rightarrow> string \<Rightarrow> blob \<Rightarrow> state" where
  "idb_set e s key v = (if idbWriteFails e then s else s\<lparr>idb := AList.update key v (idb s)\<rparr>)"

definition idb_delete :: "env \<Rightarrow> state \<Rightarrow> string \<Rightarrow> error + state" where
  "idb_delete e s key =
     (if idbDeleteFails e then Inl StorageError else Inr (s\<lparr>idb := AList.delete key (idb s)\<rparr>))"

subsection \<open>Success marker and retry scheduling\<close>

definition shouldForceRefresh :: "env \<Rightarrow> state \<Rightarrow> string \<Rightarrow> bool" where
  "shouldForceRefresh e s resolution =
     (case map_of (localStorage s) (successKey resolution) of
        None \<Rightarrow> True
      | Some lastSuccessDate \<Rightarrow> lastSuccessDate = [] \<or> lastSuccessDate \<noteq> today e)"

definition markUpdateSuccess :: "env \<Rightarrow> state \<Rightarrow> string \<Rightarrow> state" where
  "markUpdateSuccess e s resolution =
     s\<lparr>localStorage := AList.update (successKey resolution) (today e) (localStorage s),
       retryTimers := AList.delete (retryKey resolution) (retryTimers s),
       retryCounts := AList.delete resolution (retryCounts s)\<rparr>"

text \<open>\<^verbatim>\<open>this.retryCounts.get(resolution) || 0\<close>\<close>

definition attemptCount :: "state \<Rightarrow> string \<Rightarrow> nat" where
  "attemptCount s resolution =
     (case map_of (retryCounts s) resolution of None \<Rightarrow> 0 | Some n \<Rightarrow> n)"

definition scheduleRetry :: "state \<Rightarrow> string \<Rightarrow> state" where
  "scheduleRetry s resolution =
     (if map_of (retryTimers s) (retryKey resolution) \<noteq> None then s
      else
        let retryCount = attemptCount s resolution in
        if retryCount \<ge> MAX_RETRY_COUNT then s
        else
          let delayIndex = retryCount mod length RETRY_DELAYS_MS;
              delay = RETRY_DELAYS_MS ! delayIndex
          in s\<lparr>retryTimers := AList.update (retryKey resolution)
                 \<lparr>delayMs = delay, capturedRetryCount = retryCount, timerResolution = resolution\<rparr>
                 (retryTimers s)\<rparr>)"

subsection \<open>Source URL and request\<close>

text \<open>The own properties of the object literal \<^verbatim>\<open>resolutionMap\<close>. Indexing it with another
  name finds what the object inherits, if anything; that value is an object or a function,
  hence truthy, and goes into the URL as text.\<close>

definition resolutionMap :: "(string \<times> string) list" where
  "resolutionMap =
     [(''4k'', ''uhd''), (''1080p'', ''1920x1080''), (''720p'', ''1366x768''),
      (''mobile'', ''mobile'')]"

definition getWallpaperUrl :: "env \<Rightarrow> string \<Rightarrow> string" where
  "getWallpaperUrl e resolution =
     (let base = dropTrailingSlash (supabaseUrl e) in
      if base \<noteq> [] then
        let targetResolution =
              (case map_of resolutionMap resolution of
                 Some t \<Rightarrow> t
               | None \<Rightarrow>
                   (case objectPrototype e resolution of
                      Some inherited \<Rightarrow> inherited
                    | None \<Rightarrow> ''1920x1080''))
        in base @ ''/functions/v1/wallpaper-service?resolution='' @ targetResolution
             @ ''&date='' @ today e
      else fallbackImage)"

text \<open>The first part of \<^verbatim>\<open>downloadAndCache\<close>, up to \<^verbatim>\<open>createWallpaperRequest\<close>: the request sent.\<close>

definition downloadRequest :: "env \<Rightarrow> string \<Rightarrow> request" where
  "downloadRequest e wallpaperUrl =
     \<lparr>req_url =
        (if str_includes wallpaperUrl ''bing.com'' \<or> str_includes wallpaperUrl ''unsplash.com''
         then ''https://corsproxy.io/?'' @ encodeURIComponent e wallpaperUrl
         else wallpaperUrl),
      req_headers =
        (''Accept'', ''image/*'') #
        (if str_includes wallpaperUrl ''supabase.co/functions'' \<and> anonKey e \<noteq> []
         then [(''Authorization'', ''Bearer '' @ anonKey e)] else [])\<rparr>"

subsection \<open>Reading the cache\<close>

text \<open>\<^verbatim>\<open>getOriginalUrl\<close>: a missing entry, a rejected read and a payload that does not parse
  all give \<^verbatim>\<open>undefined\<close>.\<close>

definition getOriginalUrl :: "env \<Rightarrow> state \<Rightarrow> string \<Rightarrow> string option" where
  "getOriginalUrl e s cacheKey =
     (case idb_get e s (cacheKey @ ''-metadata'') of
        Inl err \<Rightarrow> None
      | Inr None \<Rightarrow> None
      | Inr (Some (ImageBlob n bytes)) \<Rightarrow> None
      | Inr (Some (MetadataBlob u)) \<Rightarrow> Some u)"

text \<open>The record each tier of \<^verbatim>\<open>getSmartCache\<close> returns for the entry it found; a blob URL
  that cannot be minted throws into the catch of \<^verbatim>\<open>getSmartCache\<close>.\<close>

definition cachedEntry :: "env \<Rightarrow> state \<Rightarrow> string \<Rightarrow> blob \<Rightarrow> bool \<Rightarrow> cached option" where
  "cachedEntry e s key b today_flag =
     (case createBlobUrl e b of
        Inl err \<Rightarrow> None
      | Inr u \<Rightarrow>
          Some \<lparr>cached_url = u, cached_isToday = today_flag,
                cached_originalUrl = getOriginalUrl e s key\<rparr>)"

definition wallpaperKeysOf :: "string \<Rightarrow> string list \<Rightarrow> string list" where
  "wallpaperKeysOf resolution allKeys =
     filter (\<lambda>key. startsWith key ''wallpaper-optimized:'' \<and> str_includes key resolution
                    \<and> \<not> str_includes key ''-metadata'') allKeys"

text \<open>\<^verbatim>\<open>getSmartCache\<close> from its first await on, the read of today's entry; \<^verbatim>\<open>todayKey\<close> has been
  computed before it. Yesterday's key is computed after that read.\<close>

definition getSmartCache_from :: "env \<Rightarrow> state \<Rightarrow> string \<Rightarrow> string \<Rightarrow> cached option" where
  "getSmartCache_from e s resolution todayKey =
     (case idb_get e s todayKey of
        Inl err \<Rightarrow> None
      | Inr (Some todayCache) \<Rightarrow> cachedEntry e s todayKey todayCache True
      | Inr None \<Rightarrow>
          (case idb_get e s (getYesterdayCacheKey e resolution) of
             Inl err \<Rightarrow> None
           | Inr (Some yesterdayCache) \<Rightarrow>
               cachedEntry e s (getYesterdayCacheKey e resolution) yesterdayCache False
           | Inr None \<Rightarrow>
               (case idb_getAllKeys e s of
                  Inl err \<Rightarrow> None
                | Inr allKeys \<Rightarrow>
                    let wallpaperKeys = wallpaperKeysOf resolution allKeys in
                    if wallpaperKeys \<noteq> [] then
                      let latestKey = hd (rev (sort wallpaperKeys)) in
                      (case idb_get e s latestKey of
                         Inl err \<Rightarrow> None
                       | Inr None \<Rightarrow> None
                       | Inr (Some latestCache) \<Rightarrow> cachedEntry e s latestKey latestCache False)
                    else None)))"

text \<open>\<^verbatim>\<open>getSmartCache\<close> run without interruption.\<close>

definition getSmartCache :: "env \<Rightarrow> state \<Rightarrow> string \<Rightarrow> cached option" where
  "getSmartCache e s resolution =
     (let todayKey = getTodayCacheKey e resolution in getSmartCache_from e s resolution todayKey)"

subsection \<open>Downloading\<close>

text \<open>The rest of \<^verbatim>\<open>downloadAndCache\<close>, from the settled request on. A JSON response throws
  in both branches of its inner try; the error that leaves is the inner catch's.\<close>

definition downloadAndCache :: "env \<Rightarrow> state \<Rightarrow> string \<Rightarrow> string \<Rightarrow> (error + downloaded) \<times> state" where
  "downloadAndCache e s wallpaperUrl resolution =
     (case netResponse e of
        Inl err \<Rightarrow> (Inl err, s)
      | Inr r \<Rightarrow>
          if str_includes (contentType r) ''application/json'' then (Inl InvalidErrorResponse, s)
          else if blob_size (body r) = 0 then (Inl EmptyDownload, s)
          else
            let isValidUrl = (startsWith (wallpaperSource r) ''http://''
                              \<or> startsWith (wallpaperSource r) ''https://'');
                existingOriginalUrl = getOriginalUrl e s (getTodayCacheKey e resolution);
                wallpaperSourceUrl =
                  (if isValidUrl then wallpaperSource r
                   else (case existingOriginalUrl of
                           None \<Rightarrow> wallpaperUrl
                         | Some u \<Rightarrow> if u \<noteq> [] then u else wallpaperUrl))
            in
            if resolution = ''4k'' \<and> blob_size (body r) < 500 * 1024 then
              (case createBlobUrl e (body r) of
                 Inl err \<Rightarrow> (Inl err, s)
               | Inr bu \<Rightarrow>
                   (Inr \<lparr>blobUrl = bu, dl_originalUrl = wallpaperSourceUrl, isFallback = True\<rparr>, s))
            else
              (case createBlobUrl e (body r) of
                 Inl err \<Rightarrow> (Inl err, s)
               | Inr bu \<Rightarrow>
                   let cacheKey = getTodayCacheKey e resolution;
                       s1 = idb_set e s cacheKey (body r);
                       s2 = idb_set e s1 (cacheKey @ ''-metadata'') (MetadataBlob wallpaperSourceUrl)
                   in (Inr \<lparr>blobUrl = bu, dl_originalUrl = wallpaperSourceUrl, isFallback = False\<rparr>,
                       s2)))"

text \<open>\<^verbatim>\<open>updateWallpaperInBackground\<close> up to its request, and from the settled request on.\<close>

definition updateWallpaperInBackground :: "env \<Rightarrow> state \<Rightarrow> string \<Rightarrow> state" where
  "updateWallpaperInBackground e s resolution =
     (let wallpaperUrl = getWallpaperUrl e resolution in
      if wallpaperUrl \<noteq> fallbackImage then
        s\<lparr>tasks := tasks s @ [Background resolution wallpaperUrl],
          requests := requests s @ [downloadRequest e wallpaperUrl]\<rparr>
      else s)"

definition updateWallpaperInBackground_settled :: "env \<Rightarrow> state \<Rightarrow> string \<Rightarrow> string \<Rightarrow> state" where
  "updateWallpaperInBackground_settled e s resolution wallpaperUrl =
     (case downloadAndCache e s wallpaperUrl resolution of
        (Inl err, s1) \<Rightarrow> scheduleRetry s1 resolution
      | (Inr result, s1) \<Rightarrow>
          if blobUrl result \<noteq> [] \<and> \<not> isFallback result then markUpdateSuccess e s1 resolution
          else if isFallback result then scheduleRetry s1 resolution
          else s1)"

text \<open>The callback \<^verbatim>\<open>scheduleRetry\<close> hands to \<^verbatim>\<open>setTimeout\<close>.\<close>

definition retryTimerFires :: "env \<Rightarrow> state \<Rightarrow> string \<Rightarrow> state" where
  "retryTimerFires e s resolution =
     (case map_of (retryTimers s) (retryKey resolution) of
        None \<Rightarrow> s
      | Some t \<Rightarrow>
          updateWallpaperInBackground e
            (s\<lparr>retryTimers := AList.delete (retryKey resolution) (retryTimers s),
               retryCounts := AList.update (timerResolution t) (capturedRetryCount t + 1)
                                (retryCounts s)\<rparr>)
            (timerResolution t))"

subsection \<open>Deleting\<close>

definition clearCacheForDate :: "env \<Rightarrow> state \<Rightarrow> string \<Rightarrow> string option \<Rightarrow> state" where
  "clearCacheForDate e s resolution date =
     (let dateStr = (case date of None \<Rightarrow> today e | Some d \<Rightarrow> if d \<noteq> [] then d else today e) in
      case idb_delete e s (cacheKeyFor resolution dateStr) of
        Inl err \<Rightarrow> s
      | Inr s1 \<Rightarrow> s1)"

definition clearTodayCache :: "env \<Rightarrow> state \<Rightarrow> string \<Rightarrow> state" where
  "clearTodayCache e s resolution = clearCacheForDate e s resolution None"

text \<open>The loop of \<^verbatim>\<open>cleanupExpiredCache\<close>; a rejected delete throws out of the loop into the
  catch, which keeps what was deleted before.\<close>

fun cleanupLoop :: "env \<Rightarrow> string \<Rightarrow> string list \<Rightarrow> state \<Rightarrow> state" where
  "cleanupLoop e cutoffDate [] s = s"
| "cleanupLoop e cutoffDate (key # keys) s =
     (case matchDate key of
        None \<Rightarrow> cleanupLoop e cutoffDate keys s
      | Some d \<Rightarrow>
          if d < cutoffDate then
            (case idb_delete e s key of
               Inl err \<Rightarrow> s
             | Inr s1 \<Rightarrow> cleanupLoop e cutoffDate keys s1)
          else cleanupLoop e cutoffDate keys s)"

definition cleanupExpiredCache :: "env \<Rightarrow> state \<Rightarrow> state" where
  "cleanupExpiredCache e s =
     (case idb_getAllKeys e s of
        Inl err \<Rightarrow> s
      | Inr allKeys \<Rightarrow>
          let wallpaperKeys = filter (\<lambda>key. startsWith key ''wallpaper-optimized:'') allKeys;
              cutoffDate = threeDaysAgo e
          in cleanupLoop e cutoffDate wallpaperKeys s)"

subsection \<open>Resolving a wallpaper\<close>

text \<open>
  \<^verbatim>\<open>_getWallpaperInternal\<close> either returns without a download or requests one and goes on
  when the request has settled. \<open>Requested\<close> carries the local variables
  \<^verbatim>\<open>wallpaperUrl\<close>, \<^verbatim>\<open>shouldRefresh\<close> and \<^verbatim>\<open>fallbackCache\<close> across the request.
\<close>

datatype started = Returned wallpaper | Requested string bool "cached option"

text \<open>What the outer catch of \<^verbatim>\<open>_getWallpaperInternal\<close> returns.\<close>

definition errorWallpaper :: wallpaper where
  "errorWallpaper =
     \<lparr>url = fallbackImage, isFromCache = False, isToday = True, needsUpdate = True,
      originalUrl = None\<rparr>"

definition localDefault :: wallpaper where
  "localDefault =
     \<lparr>url = fallbackImage, isFromCache = False, isToday = True, needsUpdate = False,
      originalUrl = None\<rparr>"

text \<open>Step 2 of \<^verbatim>\<open>_getWallpaperInternal\<close>, up to the request.\<close>

definition requestWallpaper ::
  "env \<Rightarrow> state \<Rightarrow> string \<Rightarrow> bool \<Rightarrow> cached option \<Rightarrow> (error + started) \<times> state" where
  "requestWallpaper e s resolution shouldRefresh fallbackCache =
     (let wallpaperUrl = getWallpaperUrl e resolution in
      if wallpaperUrl = fallbackImage then
        (case fallbackCache of
           Some fc \<Rightarrow>
             (Inr (Returned \<lparr>url = cached_url fc, isFromCache = True, isToday = False,
                             needsUpdate = True, originalUrl = cached_originalUrl fc\<rparr>), s)
         | None \<Rightarrow>
             (Inr (Returned \<lparr>url = wallpaperUrl, isFromCache = False, isToday = True,
                             needsUpdate = False, originalUrl = None\<rparr>), s))
      else
        (Inr (Requested wallpaperUrl shouldRefresh fallbackCache),
         s\<lparr>requests := requests s @ [downloadRequest e wallpaperUrl]\<rparr>))"

text \<open>
  The try block of \<^verbatim>\<open>_getWallpaperInternal\<close> from its first await (on the custom wallpaper
  manager, or in \<^verbatim>\<open>getSmartCache\<close> on the read of today's entry) up to the request;
  \<^verbatim>\<open>shouldRefresh\<close> and \<^verbatim>\<open>todayKey\<close> have been computed before that await, and the custom
  branch uses neither.
\<close>

definition getWallpaperInternal_lookup ::
  "env \<Rightarrow> state \<Rightarrow> string \<Rightarrow> bool \<Rightarrow> string \<Rightarrow> (error + started) \<times> state" where
  "getWallpaperInternal_lookup e s resolution shouldRefresh todayKey =
     (if resolution = ''custom'' then
        (case customWallpaper e of
           Inl err \<Rightarrow> (Inl err, s)
         | Inr None \<Rightarrow> (Inr (Returned localDefault), s)
         | Inr (Some customUrl) \<Rightarrow>
             if customUrl \<noteq> [] then
               (Inr (Returned \<lparr>url = customUrl, isFromCache = True, isToday = True,
                               needsUpdate = False, originalUrl = None\<rparr>), s)
             else (Inr (Returned localDefault), s))
      else
        let cachedResult = getSmartCache_from e s resolution todayKey in
        (case cachedResult of
           None \<Rightarrow> requestWallpaper e s resolution shouldRefresh None
         | Some c \<Rightarrow>
             if shouldRefresh then
               (Inr (Returned \<lparr>url = cached_url c, isFromCache = True,
                               isToday = cached_isToday c, needsUpdate = True,
                               originalUrl = cached_originalUrl c\<rparr>),
                updateWallpaperInBackground e s resolution)
             else if \<not> truthy (cached_originalUrl c) \<and> cached_isToday c then
               requestWallpaper e (clearTodayCache e s resolution) resolution shouldRefresh (Some c)
             else if truthy (cached_originalUrl c) then
               (Inr (Returned \<lparr>url = cached_url c, isFromCache = True,
                               isToday = cached_isToday c, needsUpdate = (\<not> cached_isToday c),
                               originalUrl = cached_originalUrl c\<rparr>),
                if \<not> cached_isToday c then updateWallpaperInBackground e s resolution else s)
             else
               (Inr (Returned \<lparr>url = cached_url c, isFromCache = True,
                               isToday = cached_isToday c, needsUpdate = True,
                               originalUrl = cached_originalUrl c\<rparr>),
                updateWallpaperInBackground e s resolution)))"

text \<open>The try block of \<^verbatim>\<open>_getWallpaperInternal\<close> up to the request, run without interruption.\<close>

definition getWallpaperInternal_begin :: "env \<Rightarrow> state \<Rightarrow> string \<Rightarrow> (error + started) \<times> state" where
  "getWallpaperInternal_begin e s resolution =
     (let shouldRefresh = shouldForceRefresh e s resolution;
          todayKey = getTodayCacheKey e resolution
      in getWallpaperInternal_lookup e s resolution shouldRefresh todayKey)"

text \<open>The try block of \<^verbatim>\<open>_getWallpaperInternal\<close> from the settled request on: the inner try
  and its \<^verbatim>\<open>catch (downloadError)\<close>.\<close>

definition getWallpaperInternal_resume ::
  "env \<Rightarrow> state \<Rightarrow> string \<Rightarrow> string \<Rightarrow> bool \<Rightarrow> cached option \<Rightarrow> (error + wallpaper) \<times> state" where
  "getWallpaperInternal_resume e s resolution wallpaperUrl shouldRefresh fallbackCache =
     (let attempt =
        (case downloadAndCache e s wallpaperUrl resolution of
           (Inl err, s1) \<Rightarrow> (Inl err, s1)
         | (Inr d, s1) \<Rightarrow>
             let result = \<lparr>url = blobUrl d, isFromCache = False, isToday = True,
                           needsUpdate = isFallback d, originalUrl = Some (dl_originalUrl d)\<rparr>
             in
             if \<not> isFallback d then
               let s2 = markUpdateSuccess e s1 resolution in
               if shouldRefresh then
                 (case idb_delete e s2 (getYesterdayCacheKey e resolution) of
                    Inl err \<Rightarrow> (Inl err, s2)
                  | Inr s3 \<Rightarrow>
                      (case idb_delete e s3 (getYesterdayCacheKey e resolution @ ''-metadata'') of
                         Inl err \<Rightarrow> (Inl err, s3)
                       | Inr s4 \<Rightarrow> (Inr result, s4)))
               else (Inr result, s2)
             else (Inr result, scheduleRetry s1 resolution))
      in
      case attempt of
        (Inr w, s') \<Rightarrow> (Inr w, s')
      | (Inl downloadError, s') \<Rightarrow>
          (case fallbackCache of
             Some fc \<Rightarrow>
               (Inr \<lparr>url = cached_url fc, isFromCache = True, isToday = False,
                     needsUpdate = True, originalUrl = cached_originalUrl fc\<rparr>,
                scheduleRetry s' resolution)
           | None \<Rightarrow> (Inl downloadError, s')))"

text \<open>The outer \<^verbatim>\<open>catch (error)\<close>: whatever was thrown, the fallback image is returned.\<close>

definition catchAll :: "(error + 'a) \<times> state \<Rightarrow> 'a \<Rightarrow> (error + 'a) \<times> state" where
  "catchAll r caught = (case r of (Inl err, s) \<Rightarrow> (Inr caught, s) | (Inr v, s) \<Rightarrow> (Inr v, s))"

definition getWallpaperInternal_settled ::
  "env \<Rightarrow> state \<Rightarrow> string \<Rightarrow> string \<Rightarrow> bool \<Rightarrow> cached option \<Rightarrow> (error + wallpaper) \<times> state" where
  "getWallpaperInternal_settled e s resolution wallpaperUrl shouldRefresh fallbackCache =
     catchAll (getWallpaperInternal_resume e s resolution wallpaperUrl shouldRefresh fallbackCache)
       errorWallpaper"

text \<open>\<^verbatim>\<open>_getWallpaperInternal\<close> run through, the request settling as \<open>netResponse\<close> says.\<close>

definition getWallpaperInternal :: "env \<Rightarrow> state \<Rightarrow> string \<Rightarrow> (error + wallpaper) \<times> state" where
  "getWallpaperInternal e s resolution =
     catchAll
       (case getWallpaperInternal_begin e s resolution of
          (Inl err, s1) \<Rightarrow> (Inl err, s1)
        | (Inr (Returned w), s1) \<Rightarrow> (Inr w, s1)
        | (Inr (Requested wallpaperUrl shouldRefresh fallbackCache), s1) \<Rightarrow>
            getWallpaperInternal_resume e s1 resolution wallpaperUrl shouldRefresh fallbackCache)
       errorWallpaper"

subsection \<open>Background triggers\<close>

definition resolutions :: "string list" where
  "resolutions = [''1080p'', ''720p'', ''4k'', ''mobile'']"

fun onPageVisibleLoop :: "env \<Rightarrow> string list \<Rightarrow> state \<Rightarrow> state" where
  "onPageVisibleLoop e [] s = s"
| "onPageVisibleLoop e (resolution # rest) s =
     (if map_of (localStorage s) (successKey resolution) \<noteq> Some (today e)
      then onPageVisibleLoop e rest (updateWallpaperInBackground e s resolution)
      else onPageVisibleLoop e rest s)"

definition onPageVisible :: "env \<Rightarrow> state \<Rightarrow> state" where
  "onPageVisible e s = onPageVisibleLoop e resolutions s"

text \<open>The loop of \<^verbatim>\<open>performDailyCheck\<close>; a rejected read throws into its catch.\<close>

fun dailyCheckLoop :: "env \<Rightarrow> string list \<Rightarrow> state \<Rightarrow> error option \<times> state" where
  "dailyCheckLoop e [] s = (None, s)"
| "dailyCheckLoop e (resolution # rest) s =
     (case idb_get e s (getTodayCacheKey e resolution) of
        Inl err \<Rightarrow> (Some err, s)
      | Inr None \<Rightarrow> dailyCheckLoop e rest (updateWallpaperInBackground e s resolution)
      | Inr (Some todayCache) \<Rightarrow> dailyCheckLoop e rest s)"

definition performDailyCheck :: "env \<Rightarrow> state \<Rightarrow> state" where
  "performDailyCheck e s =
     (if map_of (localStorage s) ''wallpaper-daily-check'' = Some (today e) then s
      else
        let s1 = s\<lparr>localStorage := AList.update ''wallpaper-daily-check'' (today e) (localStorage s)\<rparr>
        in case dailyCheckLoop e resolutions s1 of
             (Some err, s2) \<Rightarrow> s2
           | (None, s2) \<Rightarrow> cleanupExpiredCache e s2)"

subsection \<open>The service as a transition system\<close>

text \<open>
  JavaScript runs one task at a time; tasks interleave where they await. The steps below
  suspend \<^verbatim>\<open>_getWallpaperInternal\<close> at its first await and every operation at its network
  request; the reads and writes of the stores between two of these points are taken
  together. Every run of the steps is a schedule of the program.
\<close>

datatype event =
    GetWallpaper string
  | LookupSettles nat
  | DownloadSettles nat
  | RetryTimerFires string
  | PageVisible
  | DailyCheck
  | CleanupExpiredCache
  | ClearCacheForDate string "string option"

text \<open>
  \<^verbatim>\<open>getWallpaper\<close>, up to the point where its caller waits: a call that finds an entry of its
  resolution in \<^verbatim>\<open>loadingPromises\<close> waits for that promise; any other call starts
  \<^verbatim>\<open>_getWallpaperInternal\<close>, which runs to its first await, and stores the promise.
\<close>

definition getWallpaper :: "env \<Rightarrow> state \<Rightarrow> string \<Rightarrow> state" where
  "getWallpaper e s resolution =
     (case map_of (loadingPromises s) (loadingKey resolution) of
        Some p \<Rightarrow> s\<lparr>calls := calls s @ [p]\<rparr>
      | None \<Rightarrow>
          let p = nextPromise s;
              shouldRefresh = shouldForceRefresh e s resolution;
              todayKey = getTodayCacheKey e resolution
          in s\<lparr>loadingPromises := AList.update (loadingKey resolution) p (loadingPromises s),
               tasks := tasks s @ [Called p resolution shouldRefresh todayKey],
               calls := calls s @ [p], nextPromise := p + 1\<rparr>)"

text \<open>
  The first await of the \<open>i\<close>-th operation, a call, is answered: \<^verbatim>\<open>_getWallpaperInternal\<close> runs
  on to its return, and then the \<^verbatim>\<open>finally\<close> block of \<^verbatim>\<open>getWallpaper\<close> runs, or to its request.
\<close>

definition lookupSettles :: "env \<Rightarrow> state \<Rightarrow> nat \<Rightarrow> state" where
  "lookupSettles e s i =
     (if i < length (tasks s) then
        (case tasks s ! i of
           Called p resolution shouldRefresh todayKey \<Rightarrow>
             let s0 = s\<lparr>tasks := take i (tasks s) @ drop (Suc i) (tasks s)\<rparr> in
             (case catchAll (getWallpaperInternal_lookup e s0 resolution shouldRefresh todayKey)
                     (Returned errorWallpaper) of
                (Inl err, s1) \<Rightarrow>
                  s1\<lparr>settled := settled s1 @ [(p, Inl err)],
                     loadingPromises := AList.delete (loadingKey resolution) (loadingPromises s1)\<rparr>
              | (Inr (Returned w), s1) \<Rightarrow>
                  s1\<lparr>settled := settled s1 @ [(p, Inr w)],
                     loadingPromises := AList.delete (loadingKey resolution) (loadingPromises s1)\<rparr>
              | (Inr (Requested wallpaperUrl shouldRefresh' fallbackCache), s1) \<Rightarrow>
                  s1\<lparr>tasks := tasks s1
                        @ [Foreground p resolution wallpaperUrl shouldRefresh' fallbackCache]\<rparr>)
         | Foreground p resolution wallpaperUrl shouldRefresh fallbackCache \<Rightarrow> s
         | Background resolution wallpaperUrl \<Rightarrow> s)
      else s)"

text \<open>The request of the \<open>i\<close>-th download in flight settles: the operation that waited for it
  runs to its end; for \<^verbatim>\<open>getWallpaper\<close> that is the \<^verbatim>\<open>finally\<close> block.\<close>

definition downloadSettles :: "env \<Rightarrow> state \<Rightarrow> nat \<Rightarrow> state" where
  "downloadSettles e s i =
     (if i < length (tasks s) then
        let s0 = s\<lparr>tasks := take i (tasks s) @ drop (Suc i) (tasks s)\<rparr> in
        (case tasks s ! i of
           Called p resolution shouldRefresh todayKey \<Rightarrow> s
         | Foreground p resolution wallpaperUrl shouldRefresh fallbackCache \<Rightarrow>
             (case getWallpaperInternal_settled e s0 resolution wallpaperUrl shouldRefresh fallbackCache of
                (r, s1) \<Rightarrow>
                  s1\<lparr>settled := settled s1 @ [(p, r)],
                     loadingPromises := AList.delete (loadingKey resolution) (loadingPromises s1)\<rparr>)
         | Background resolution wallpaperUrl \<Rightarrow>
             updateWallpaperInBackground_settled e s0 resolution wallpaperUrl)
      else s)"

fun step :: "env \<Rightarrow> event \<Rightarrow> state \<Rightarrow> state" where
  "step e (GetWallpaper resolution) s = getWallpaper e s resolution"
| "step e (LookupSettles i) s = lookupSettles e s i"
| "step e (DownloadSettles i) s = downloadSettles e s i"
| "step e (RetryTimerFires resolution) s = retryTimerFires e s resolution"
| "step e PageVisible s = onPageVisible e s"
| "step e DailyCheck s = performDailyCheck e s"
| "step e CleanupExpiredCache s = cleanupExpiredCache e s"
| "step e (ClearCacheForDate resolution date) s = clearCacheForDate e s resolution date"

text \<open>A run: the events in order, each with the environment it meets.\<close>

fun run :: "(env \<times> event) list \<Rightarrow> state \<Rightarrow> state" where
  "run [] s = s"
| "run ((e, ev) # rest) s = run rest (step e ev s)"

text \<open>
  Repeated failures: a background update of the resolution is in flight; in each round
  its request settles, the delay of the timer that is then pending is observed, and the
  timer fires. The list stops at the first round that leaves no timer.
\<close>

fun observedDelays :: "env \<Rightarrow> string \<Rightarrow> nat \<Rightarrow> state \<Rightarrow> nat list" where
  "observedDelays e resolution 0 s = []"
| "observedDelays e resolution (Suc n) s =
     (let s1 = step e (DownloadSettles 0) s in
      case map_of (retryTimers s1) (retryKey resolution) of
        None \<Rightarrow> []
      | Some t \<Rightarrow> delayMs t # observedDelays e resolution n (step e (RetryTimerFires resolution) s1))"

section \<open>Notions the properties are stated with\<close>

subsection \<open>Retries and downloads in flight\<close>

text \<open>The backoff table in milliseconds, read cyclically.\<close>

definition backoff :: "nat \<Rightarrow> nat" where
  "backoff k = [30000, 60000, 120000, 240000] ! (k mod 4)"

text \<open>The operations of \<^verbatim>\<open>getWallpaper\<close> in progress, and the promise each settles.\<close>

definition inFlight :: "state \<Rightarrow> task list" where
  "inFlight s = filter is_foreground (tasks s)"

fun task_promise :: "task \<Rightarrow> nat" where
  "task_promise (Called p resolution shouldRefresh todayKey) = p"
| "task_promise (Foreground p resolution wallpaperUrl shouldRefresh fallbackCache) = p"
| "task_promise (Background resolution wallpaperUrl) = 0"

text \<open>The part of the state the deduplication of \<^verbatim>\<open>getWallpaper\<close> works on.\<close>

definition control ::
  "state \<Rightarrow> task list \<times> nat jsmap \<times> (nat \<times> (error + wallpaper)) list \<times> nat list \<times> nat" where
  "control s = (inFlight s, loadingPromises s, settled s, calls s, nextPromise s)"

text \<open>
  The invariant of the deduplication map: its entries are exactly the operations of
  \<^verbatim>\<open>getWallpaper\<close> in progress, one per resolution, none of them settled; every settled
  promise is fulfilled, once; every call waits for a promise that is settled or in progress.
\<close>

definition dedupInv :: "state \<Rightarrow> bool" where
  "dedupInv s =
     ((\<forall>key p. map_of (loadingPromises s) key = Some p \<longrightarrow>
         (\<exists>t \<in> set (inFlight s). key = loadingKey (task_resolution t) \<and> task_promise t = p))
      \<and> (\<forall>t \<in> set (inFlight s).
           map_of (loadingPromises s) (loadingKey (task_resolution t)) = Some (task_promise t)
           \<and> task_promise t < nextPromise s \<and> task_promise t \<notin> fst ` set (settled s))
      \<and> distinct (map task_resolution (inFlight s))
      \<and> distinct (map task_promise (inFlight s))
      \<and> (\<forall>pr \<in> set (settled s). fst pr < nextPromise s \<and> (\<exists>w. snd pr = Inr w))
      \<and> distinct (map fst (settled s))
      \<and> (\<forall>p \<in> set (calls s). p < nextPromise s \<and>
           (p \<in> fst ` set (settled s) \<or> p \<in> task_promise ` set (inFlight s))))"

text \<open>The downloads of a resolution in flight, and the operations of \<^verbatim>\<open>getWallpaper\<close> for a
  resolution in progress (each has at most one download in flight).\<close>

fun is_download :: "task \<Rightarrow> bool" where
  "is_download (Called p resolution shouldRefresh todayKey) = False"
| "is_download (Foreground p resolution wallpaperUrl shouldRefresh fallbackCache) = True"
| "is_download (Background resolution wallpaperUrl) = True"

definition outstandingDownloads :: "state \<Rightarrow> string \<Rightarrow> nat" where
  "outstandingDownloads s resolution =
     length (filter (\<lambda>t. is_download t \<and> task_resolution t = resolution) (tasks s))"

definition outstandingForeground :: "state \<Rightarrow> string \<Rightarrow> nat" where
  "outstandingForeground s resolution =
     length (filter (\<lambda>t. task_resolution t = resolution) (inFlight s))"

text \<open>
  A promise is fulfilled: it has settled with a wallpaper record. A download fulfils a
  promise: it is a download of \<^verbatim>\<open>getWallpaper\<close> in flight for that promise, and however its
  request settles, the promise is fulfilled when it has.
\<close>

definition fulfilled :: "state \<Rightarrow> nat \<Rightarrow> bool" where
  "fulfilled s p = (\<exists>w. map_of (settled s) p = Some (Inr w))"

definition downloadFulfils :: "state \<Rightarrow> nat \<Rightarrow> nat \<Rightarrow> bool" where
  "downloadFulfils s i p =
     (i < length (tasks s) \<and> is_foreground (tasks s ! i) \<and> is_download (tasks s ! i)
      \<and> task_promise (tasks s ! i) = p
      \<and> (\<forall>e. fulfilled (step e (DownloadSettles i) s) p))"

text \<open>Why the download of the running operation fails, if it does: the request rejects, the
  response is JSON, the payload is empty, or no blob URL can be minted.\<close>

definition downloadFailure :: "env \<Rightarrow> error option" where
  "downloadFailure e =
     (case netResponse e of
        Inl err \<Rightarrow> Some err
      | Inr r \<Rightarrow>
          if str_includes (contentType r) ''application/json'' then Some InvalidErrorResponse
          else if blob_size (body r) = 0 then Some EmptyDownload
          else (case createBlobUrl e (body r) of Inl err \<Rightarrow> Some err | Inr bu \<Rightarrow> None))"

subsection \<open>Success marker\<close>

text \<open>The SuccessMarker of a resolution.\<close>

definition marker :: "state \<Rightarrow> string \<Rightarrow> string option" where
  "marker s resolution = map_of (localStorage s) (successKey resolution)"

text \<open>The three dates of an environment are \<^verbatim>\<open>YYYY-MM-DD\<close> strings in calendar order.\<close>

definition datesWellFormed :: "env \<Rightarrow> bool" where
  "datesWellFormed e =
     (length (today e) = 10 \<and> length (yesterday e) = 10 \<and> length (threeDaysAgo e) = 10
      \<and> dateAtStart (today e) \<and> dateAtStart (yesterday e) \<and> dateAtStart (threeDaysAgo e)
      \<and> threeDaysAgo e < yesterday e \<and> yesterday e < today e)"

text \<open>The payload the network has just delivered is stored under (resolution, today), and it
  is not one \<^verbatim>\<open>downloadAndCache\<close> flags as fallback.\<close>

definition freshEntry :: "env \<Rightarrow> state \<Rightarrow> string \<Rightarrow> bool" where
  "freshEntry e s resolution =
     (case netResponse e of
        Inl err \<Rightarrow> False
      | Inr resp \<Rightarrow>
          blob_size (body resp) \<noteq> 0
          \<and> \<not> (resolution = ''4k'' \<and> blob_size (body resp) < 500 * 1024)
          \<and> map_of (idb s) (cacheKeyFor resolution (today e)) = Some (body resp))"

subsection \<open>Dates and cache keys\<close>

text \<open>A string of the shape \<^verbatim>\<open>YYYY-MM-DD\<close>.\<close>

definition isoDateString :: "string \<Rightarrow> bool" where
  "isoDateString d = (length d = 10 \<and> dateAtStart d)"

text \<open>
  A date of the calendar with a year of at most four digits; a date the clock of a browser
  shows, from 1970 on; and the order of the calendar.
\<close>

fun calendarDate :: "date \<Rightarrow> bool" where
  "calendarDate (y, m, d) = (y \<le> 9999 \<and> 1 \<le> m \<and> m \<le> 12 \<and> 1 \<le> d \<and> d \<le> daysInMonth y m)"

definition validDate :: "date \<Rightarrow> bool" where
  "validDate dt = (calendarDate dt \<and> 1970 \<le> fst dt)"

fun dateLess :: "date \<Rightarrow> date \<Rightarrow> bool" where
  "dateLess (y, m, d) (y', m', d') = (y < y' \<or> y = y' \<and> (m < m' \<or> m = m' \<and> d < d'))"

text \<open>The test of \<^verbatim>\<open>cleanupExpiredCache\<close> on a key: the first date in it is before the cutoff;
  and the keys the method deletes.\<close>

definition dateBefore :: "string \<Rightarrow> string \<Rightarrow> bool" where
  "dateBefore cutoffDate key = (case matchDate key of None \<Rightarrow> False | Some d \<Rightarrow> d < cutoffDate)"

definition expiredKey :: "string \<Rightarrow> string \<Rightarrow> bool" where
  "expiredKey cutoffDate key = (startsWith key ''wallpaper-optimized:'' \<and> dateBefore cutoffDate key)"

text \<open>
  The store as the service fills it: every payload is non-empty, every key is the cache key
  of one of the four resolutions and a date, or the metadata key beside it.
\<close>

definition storeWellFormed :: "state \<Rightarrow> bool" where
  "storeWellFormed s =
     (\<forall>kv \<in> set (idb s).
        blob_size (snd kv) \<noteq> 0
        \<and> (\<exists>r \<in> set resolutions. \<exists>d. isoDateString d
               \<and> (fst kv = cacheKeyFor r d \<or> fst kv = cacheKeyFor r d @ ''-metadata'')))"

text \<open>The same of the keys alone: a payload may be empty.\<close>

definition keysWellFormed :: "state \<Rightarrow> bool" where
  "keysWellFormed s =
     (\<forall>kv \<in> set (idb s).
        \<exists>r \<in> set resolutions. \<exists>d. isoDateString d
               \<and> (fst kv = cacheKeyFor r d \<or> fst kv = cacheKeyFor r d @ ''-metadata''))"

text \<open>
  A state and an event of the service as the application drives it: the resolutions are
  the four of the application or custom in the calls, and the four of the application in
  the downloads and the timers.
\<close>

definition entryKey :: "string \<Rightarrow> bool" where
  "entryKey key =
     (\<exists>r \<in> set resolutions. \<exists>d. isoDateString d
        \<and> (key = cacheKeyFor r d \<or> key = cacheKeyFor r d @ ''-metadata''))"

definition standardState :: "state \<Rightarrow> bool" where
  "standardState s =
     (storeWellFormed s
      \<and> (\<forall>t \<in> set (tasks s).
            task_resolution t \<in> set resolutions \<or> (\<exists>p sr tk. t = Called p ''custom'' sr tk))
      \<and> (\<forall>kt \<in> set (retryTimers s). timerResolution (snd kt) \<in> set resolutions))"

fun standardEvent :: "event \<Rightarrow> bool" where
  "standardEvent (GetWallpaper resolution) = (resolution \<in> set resolutions \<or> resolution = ''custom'')"
| "standardEvent _ = True"

subsection \<open>The tiered resolver, from the words of the specification\<close>

text \<open>
  Section 4.2 of the specification: look up today's entry and return it with
  \<open>isToday = True\<close> if it is present and non-empty; else yesterday's entry if present; else
  scan all stored keys of the category and take the lexicographically greatest date; else
  nothing. \<open>storedDates\<close> are the dates under which the category has an entry.
\<close>

definition storedDates :: "state \<Rightarrow> string \<Rightarrow> string list" where
  "storedDates s category =
     filter isoDateString
       (map (drop (length (cacheKeyFor category [])))
          (filter (\<lambda>key. startsWith key (cacheKeyFor category [])) (map fst (idb s))))"

definition resolveSpec :: "env \<Rightarrow> state \<Rightarrow> string \<Rightarrow> cached option" where
  "resolveSpec e s category =
     (let todayKey = cacheKeyFor category (today e);
          yesterdayKey = cacheKeyFor category (yesterday e);
          older =
            (case map_of (idb s) yesterdayKey of
               Some b \<Rightarrow> cachedEntry e s yesterdayKey b False
             | None \<Rightarrow>
                 (case storedDates s category of
                    [] \<Rightarrow> None
                  | d # ds \<Rightarrow>
                      let latestKey = cacheKeyFor category (fold max ds d) in
                      (case map_of (idb s) latestKey of
                         Some b \<Rightarrow> cachedEntry e s latestKey b False
                       | None \<Rightarrow> None)))
      in case map_of (idb s) todayKey of
           Some b \<Rightarrow> if blob_size b \<noteq> 0 then cachedEntry e s todayKey b True else older
         | None \<Rightarrow> older)"

text \<open>
  The resolver with the test the code makes: a tier is taken when its entry is present,
  whether the payload is empty or not.
\<close>

definition resolvePresent :: "env \<Rightarrow> state \<Rightarrow> string \<Rightarrow> cached option" where
  "resolvePresent e s category =
     (let todayKey = cacheKeyFor category (today e);
          yesterdayKey = cacheKeyFor category (yesterday e)
      in case map_of (idb s) todayKey of
           Some b \<Rightarrow> cachedEntry e s todayKey b True
         | None \<Rightarrow>
             (case map_of (idb s) yesterdayKey of
                Some b \<Rightarrow> cachedEntry e s yesterdayKey b False
              | None \<Rightarrow>
                  (case storedDates s category of
                     [] \<Rightarrow> None
                   | d # ds \<Rightarrow>
                       let latestKey = cacheKeyFor category (fold max ds d) in
                       (case map_of (idb s) latestKey of
                          Some b \<Rightarrow> cachedEntry e s latestKey b False
                        | None \<Rightarrow> None))))"

subsection \<open>Example environments and states\<close>

text \<open>What a browser's objects inherit, as text.\<close>

definition browserPrototype :: "string \<Rightarrow> string option" where
  "browserPrototype = map_of
     [(''constructor'', ''function Object() { [native code] }''),
      (''toString'', ''function toString() { [native code] }''),
      (''toLocaleString'', ''function toLocaleString() { [native code] }''),
      (''valueOf'', ''function valueOf() { [native code] }''),
      (''hasOwnProperty'', ''function hasOwnProperty() { [native code] }''),
      (''isPrototypeOf'', ''function isPrototypeOf() { [native code] }''),
      (''propertyIsEnumerable'', ''function propertyIsEnumerable() { [native code] }''),
      (''__proto__'', ''[object Object]'')]"

text \<open>10 May 2024, the wallpaper service configured, the network down.\<close>

definition offlineEnv :: env where
  "offlineEnv =
     \<lparr>now = (2024, 5, 10), objectPrototype = browserPrototype,
      supabaseUrl = ''https://x.supabase.co'', anonKey = ''anon'',
      customWallpaper = Inr None, netResponse = Inl NetworkError,
      createBlobUrl = (\<lambda>b. Inr ''blob:wallpaper''), encodeURIComponent = (\<lambda>u. u),
      idbReadFails = False, idbWriteFails = False, idbDeleteFails = False\<rparr>"

text \<open>No wallpaper service configured (\<^verbatim>\<open>VITE_SUPABASE_URL\<close> empty).\<close>

definition unconfiguredEnv :: env where
  "unconfiguredEnv = offlineEnv\<lparr>supabaseUrl := []\<rparr>"

text \<open>The network answers with an image of 100 KB.\<close>

definition smallEnv :: env where
  "smallEnv = offlineEnv\<lparr>netResponse :=
     Inr \<lparr>contentType = ''image/jpeg'', wallpaperSource = ''https://www.bing.com/th?id=OHR.jpg'',
          body = ImageBlob (100 * 1024) ''jpeg''\<rparr>\<rparr>"

text \<open>The network answers with an image of 2 MB.\<close>

definition onlineEnv :: env where
  "onlineEnv = offlineEnv\<lparr>netResponse :=
     Inr \<lparr>contentType = ''image/jpeg'', wallpaperSource = ''https://www.bing.com/th?id=OHR.jpg'',
          body = ImageBlob (2048 * 1024) ''jpeg''\<rparr>\<rparr>"

text \<open>Five days later.\<close>

definition laterEnv :: env where
  "laterEnv = offlineEnv\<lparr>now := (2024, 5, 15)\<rparr>"

text \<open>A custom wallpaper is stored.\<close>

definition customEnv :: env where
  "customEnv = offlineEnv\<lparr>customWallpaper := Inr (Some ''blob:custom'')\<rparr>"

text \<open>A first call of \<^verbatim>\<open>getWallpaper\<close> on an empty store, and the answer of the store: the
  download is in flight.\<close>

definition afterRequest :: state where
  "afterRequest = run [(onlineEnv, GetWallpaper ''1080p''), (onlineEnv, LookupSettles 0)] init"

text \<open>That download has settled.\<close>

definition afterDownload :: state where
  "afterDownload = step onlineEnv (DownloadSettles 0) afterRequest"

text \<open>A store with an empty payload under 10 May and a payload of 2 MB under 9 May.\<close>

definition emptyTodayStore :: state where
  "emptyTodayStore = init\<lparr>idb :=
     [(cacheKeyFor ''1080p'' ''2024-05-10'', ImageBlob 0 []),
      (cacheKeyFor ''1080p'' ''2024-05-09'', ImageBlob (2048 * 1024) ''may9'')]\<rparr>"

text \<open>A store with two days of 1080p, one with its metadata, and one day of 4k.\<close>

definition exampleStore :: state where
  "exampleStore = init\<lparr>idb :=
     [(cacheKeyFor ''1080p'' ''2024-05-08'', ImageBlob (2048 * 1024) ''may8''),
      (cacheKeyFor ''1080p'' ''2024-05-08'' @ ''-metadata'',
       MetadataBlob ''https://www.bing.com/may8.jpg''),
      (cacheKeyFor ''4k'' ''2024-05-13'', ImageBlob (4096 * 1024) ''may13'')  ,
      (cacheKeyFor ''1080p'' ''2024-05-12'', ImageBlob (2048 * 1024) ''may12''),
      (cacheKeyFor ''1080p'' ''2024-05-12'' @ ''-metadata'',
       MetadataBlob ''https://www.bing.com/may12.jpg'')]\<rparr>"

section \<open>Properties\<close>

subsection \<open>Retry scheduling\<close>

lemma getWallpaperUrl_length:
  "dropTrailingSlash (supabaseUrl e) \<noteq> [] \<Longrightarrow> 17 < length (getWallpaperUrl e resolution)"
  by (simp add: getWallpaperUrl_def Let_def)

lemma getWallpaperUrl_configured:
  "(getWallpaperUrl e resolution \<noteq> fallbackImage) = (dropTrailingSlash (supabaseUrl e) \<noteq> [])"
proof (cases "dropTrailingSlash (supabaseUrl e) = []")
  case True
  then show ?thesis by (simp add: getWallpaperUrl_def)
next
  case False
  then have "length (getWallpaperUrl e resolution) \<noteq> length fallbackImage"
    using getWallpaperUrl_length[of e resolution] by (simp add: fallbackImage_def)
  then show ?thesis using False by auto
qed

lemma scheduleRetry_cases:
  "scheduleRetry s resolution =
     (if map_of (retryTimers s) (retryKey resolution) \<noteq> None then s
      else if attemptCount s resolution \<ge> 8 then s
      else s\<lparr>retryTimers := AList.update (retryKey resolution)
               \<lparr>delayMs = [30000, 60000, 120000, 240000] ! (attemptCount s resolution mod 4),
                capturedRetryCount = attemptCount s resolution, timerResolution = resolution\<rparr>
               (retryTimers s)\<rparr>)"
  by (simp add: scheduleRetry_def Let_def RETRY_DELAYS_MS_def MAX_RETRY_COUNT_def)

lemma observedDelays_from:
  assumes net: "netResponse e = Inl err"
    and url: "getWallpaperUrl e resolution \<noteq> fallbackImage"
    and t: "tasks s = [Background resolution (getWallpaperUrl e resolution)]"
    and nt: "map_of (retryTimers s) (retryKey resolution) = None"
  shows "observedDelays e resolution n s
         = map backoff [attemptCount s resolution ..< min (attemptCount s resolution + n) 8]"
  using t nt
proof (induction n arbitrary: s)
  case 0
  then show ?case by simp
next
  case (Suc n)
  let ?k = "attemptCount s resolution"
  let ?s0 = "s\<lparr>tasks := []\<rparr>"
  have s1: "step e (DownloadSettles 0) s = scheduleRetry ?s0 resolution"
    using Suc.prems net
    by (simp add: downloadSettles_def updateWallpaperInBackground_settled_def downloadAndCache_def)
  show ?case
  proof (cases "?k \<ge> 8")
    case True
    then have "scheduleRetry ?s0 resolution = ?s0"
      using Suc.prems by (simp add: scheduleRetry_cases attemptCount_def)
    then show ?thesis using s1 Suc.prems True by simp
  next
    case False
    define tm where
      "tm = \<lparr>delayMs = backoff ?k, capturedRetryCount = ?k, timerResolution = resolution\<rparr>"
    let ?s1 = "?s0\<lparr>retryTimers := AList.update (retryKey resolution) tm (retryTimers s)\<rparr>"
    let ?s2 = "step e (RetryTimerFires resolution) ?s1"
    have sr: "scheduleRetry ?s0 resolution = ?s1"
      using Suc.prems False by (simp add: scheduleRetry_cases attemptCount_def tm_def backoff_def)
    have look: "map_of (retryTimers ?s1) (retryKey resolution) = Some tm"
      by (simp add: update_conv')
    have del: "AList.delete (retryKey resolution)
                 (AList.update (retryKey resolution) tm (retryTimers s))
               = AList.delete (retryKey resolution) (retryTimers s)"
      by (simp add: delete_update_same)
    have s2: "?s2 = s\<lparr>tasks := [Background resolution (getWallpaperUrl e resolution)],
                       retryTimers := AList.delete (retryKey resolution) (retryTimers s),
                       retryCounts := AList.update resolution (Suc ?k) (retryCounts s),
                       requests := requests s @ [downloadRequest e (getWallpaperUrl e resolution)]\<rparr>"
      using url look del
      by (simp add: retryTimerFires_def updateWallpaperInBackground_def Let_def tm_def)
    have t2: "tasks ?s2 = [Background resolution (getWallpaperUrl e resolution)]"
      unfolding s2 by simp
    have nt2: "map_of (retryTimers ?s2) (retryKey resolution) = None"
      unfolding s2 by (simp add: delete_conv')
    have k2: "attemptCount ?s2 resolution = Suc ?k"
      unfolding s2 by (simp add: attemptCount_def update_conv')
    have IH: "observedDelays e resolution n ?s2 = map backoff [Suc ?k ..< min (Suc ?k + n) 8]"
      using Suc.IH[OF t2 nt2] k2 by simp
    have "observedDelays e resolution (Suc n) s = backoff ?k # observedDelays e resolution n ?s2"
      using s1 sr look by (simp add: tm_def)
    also have "\<dots> = backoff ?k # map backoff [Suc ?k ..< min (Suc ?k + n) 8]"
      using IH by simp
    also have "\<dots> = map backoff [?k ..< min (?k + Suc n) 8]"
    proof -
      have lt: "?k < min (?k + Suc n) 8" using False by simp
      have "[?k ..< min (?k + Suc n) 8] = ?k # [Suc ?k ..< min (Suc ?k + n) 8]"
        using upt_conv_Cons[OF lt] by simp
      then show ?thesis by simp
    qed
    finally show ?thesis .
  qed
qed

lemma backoff_table:
  "map backoff [0 ..< 8] = [30000, 60000, 120000, 240000, 30000, 60000, 120000, 240000]"
  by (simp add: backoff_def upt_rec)

text \<open>
  C5. \<^verbatim>\<open>scheduleRetry\<close> does nothing while a timer is pending for the resolution; otherwise
  it does nothing once the attempt count (0 when absent) has reached 8, and otherwise sets
  a timer whose delay is the entry of [30 s, 60 s, 120 s, 240 s] at attempt count mod 4.
  When every download of a resolution fails, starting from attempt count 0, the delays
  observed over \<open>n\<close> rounds are the first \<open>n\<close> of 30, 60, 120, 240, 30, 60, 120, 240 seconds:
  after the eighth no timer is set.
\<close>

theorem scheduleRetry_backoff:
  "scheduleRetry s resolution =
     (if map_of (retryTimers s) (retryKey resolution) \<noteq> None then s
      else if attemptCount s resolution \<ge> 8 then s
      else s\<lparr>retryTimers := AList.update (retryKey resolution)
               \<lparr>delayMs = [30000, 60000, 120000, 240000] ! (attemptCount s resolution mod 4),
                capturedRetryCount = attemptCount s resolution, timerResolution = resolution\<rparr>
               (retryTimers s)\<rparr>)
   \<and> (netResponse e = Inl err \<and> getWallpaperUrl e resolution \<noteq> fallbackImage
        \<and> tasks s = [Background resolution (getWallpaperUrl e resolution)]
        \<and> map_of (retryTimers s) (retryKey resolution) = None
        \<and> attemptCount s resolution = 0
      \<longrightarrow> observedDelays e resolution n s
          = take n [30000, 60000, 120000, 240000, 30000, 60000, 120000, 240000])"
proof (intro conjI impI)
  show "scheduleRetry s resolution =
     (if map_of (retryTimers s) (retryKey resolution) \<noteq> None then s
      else if attemptCount s resolution \<ge> 8 then s
      else s\<lparr>retryTimers := AList.update (retryKey resolution)
               \<lparr>delayMs = [30000, 60000, 120000, 240000] ! (attemptCount s resolution mod 4),
                capturedRetryCount = attemptCount s resolution, timerResolution = resolution\<rparr>
               (retryTimers s)\<rparr>)"
    by (rule scheduleRetry_cases)
next
  assume a: "netResponse e = Inl err \<and> getWallpaperUrl e resolution \<noteq> fallbackImage
        \<and> tasks s = [Background resolution (getWallpaperUrl e resolution)]
        \<and> map_of (retryTimers s) (retryKey resolution) = None
        \<and> attemptCount s resolution = 0"
  then have "observedDelays e resolution n s = map backoff [0 ..< min n 8]"
    using observedDelays_from[of e err resolution s n] by simp
  also have "\<dots> = take n (map backoff [0 ..< 8])"
  proof (cases "n \<le> 8")
    case True
    then have "take n [0 ..< 8] = [0 ..< n]" using take_upt[of 0 n 8] by simp
    then show ?thesis using True by (simp add: take_map min_def)
  next
    case False
    then have "take n [0 ..< 8] = [0 ..< 8]" by simp
    then show ?thesis using False by (simp add: take_map min_def)
  qed
  finally show "observedDelays e resolution n s
          = take n [30000, 60000, 120000, 240000, 30000, 60000, 120000, 240000]"
    by (simp only: backoff_table)
qed

lemma offlineEnv_configured: "getWallpaperUrl offlineEnv resolution \<noteq> fallbackImage"
  by (simp add: getWallpaperUrl_configured dropTrailingSlash_def offlineEnv_def)

text \<open>With the network down, twelve rounds show the eight delays and no more.\<close>

theorem scheduleRetry_backoff_witness:
  "observedDelays offlineEnv ''4k'' 12
     (init\<lparr>tasks := [Background ''4k'' (getWallpaperUrl offlineEnv ''4k'')]\<rparr>)
   = [30000, 60000, 120000, 240000, 30000, 60000, 120000, 240000]"
proof -
  have n: "netResponse offlineEnv = Inl NetworkError" by (simp add: offlineEnv_def)
  have t: "map_of (retryTimers (init\<lparr>tasks := [Background ''4k'' (getWallpaperUrl offlineEnv ''4k'')]\<rparr>))
             (retryKey ''4k'') = None"
    by (simp add: init_def)
  have c: "attemptCount (init\<lparr>tasks := [Background ''4k'' (getWallpaperUrl offlineEnv ''4k'')]\<rparr>) ''4k'' = 0"
    by (simp add: init_def attemptCount_def)
  show ?thesis
    using scheduleRetry_backoff[of "init\<lparr>tasks := [Background ''4k'' (getWallpaperUrl offlineEnv ''4k'')]\<rparr>"
        "''4k''" offlineEnv NetworkError 12] n t c offlineEnv_configured[of "''4k''"]
    by simp
qed

subsection \<open>What the methods leave alone\<close>

lemma control_idb_set [simp]: "control (idb_set e s k v) = control s"
  by (simp add: control_def inFlight_def idb_set_def)

lemma control_idb_delete: "idb_delete e s k = Inr s' \<Longrightarrow> control s' = control s"
  by (auto simp: control_def inFlight_def idb_delete_def split: if_splits)

lemma control_scheduleRetry [simp]: "control (scheduleRetry s r) = control s"
  by (simp add: control_def inFlight_def scheduleRetry_def Let_def)

lemma control_markUpdateSuccess [simp]: "control (markUpdateSuccess e s r) = control s"
  by (simp add: control_def inFlight_def markUpdateSuccess_def)

lemma control_updateWallpaperInBackground [simp]:
  "control (updateWallpaperInBackground e s r) = control s"
  by (simp add: control_def inFlight_def updateWallpaperInBackground_def Let_def)

lemma control_downloadAndCache [simp]: "control (snd (downloadAndCache e s u r)) = control s"
  by (simp add: downloadAndCache_def Let_def split: sum.splits)

lemma control_background_settled [simp]:
  "control (updateWallpaperInBackground_settled e s r u) = control s"
proof -
  obtain x s1 where d: "downloadAndCache e s u r = (x, s1)" by (cases "downloadAndCache e s u r")
  then have "control s1 = control s" using control_downloadAndCache[of e s u r] by simp
  then show ?thesis using d
    by (simp add: updateWallpaperInBackground_settled_def split: sum.splits)
qed

lemma control_fields_upd [simp]:
  "control (s\<lparr>retryTimers := a\<rparr>) = control s"
  "control (s\<lparr>retryCounts := b\<rparr>) = control s"
  "control (s\<lparr>localStorage := c\<rparr>) = control s"
  "control (s\<lparr>idb := d\<rparr>) = control s"
  "control (s\<lparr>requests := f\<rparr>) = control s"
  by (simp_all add: control_def inFlight_def)

lemma control_retryTimerFires [simp]: "control (retryTimerFires e s r) = control s"
  by (simp add: retryTimerFires_def split: option.splits)

lemma control_clearCacheForDate [simp]: "control (clearCacheForDate e s r d) = control s"
  by (auto simp: clearCacheForDate_def Let_def dest: control_idb_delete split: sum.splits)

lemma control_clearTodayCache [simp]: "control (clearTodayCache e s r) = control s"
  by (simp add: clearTodayCache_def)

lemma control_cleanupLoop [simp]: "control (cleanupLoop e c ks s) = control s"
  by (induction ks arbitrary: s) (auto dest: control_idb_delete split: option.splits sum.splits)

lemma control_cleanupExpiredCache [simp]: "control (cleanupExpiredCache e s) = control s"
  by (simp add: cleanupExpiredCache_def Let_def split: sum.splits)

lemma control_onPageVisibleLoop [simp]: "control (onPageVisibleLoop e rs s) = control s"
  by (induction rs arbitrary: s) auto

lemma control_onPageVisible [simp]: "control (onPageVisible e s) = control s"
  by (simp add: onPageVisible_def)

lemma control_dailyCheckLoop [simp]: "control (snd (dailyCheckLoop e rs s)) = control s"
  by (induction rs arbitrary: s) (auto split: sum.splits option.splits)

lemma control_performDailyCheck [simp]: "control (performDailyCheck e s) = control s"
proof -
  let ?s1 = "s\<lparr>localStorage := AList.update ''wallpaper-daily-check'' (today e) (localStorage s)\<rparr>"
  obtain x s2 where d: "dailyCheckLoop e resolutions ?s1 = (x, s2)"
    by (cases "dailyCheckLoop e resolutions ?s1")
  then have "control s2 = control s" using control_dailyCheckLoop[of e resolutions ?s1] by simp
  then show ?thesis using d by (simp add: performDailyCheck_def Let_def split: option.splits)
qed

lemma control_requestWallpaper [simp]:
  "control (snd (requestWallpaper e s r sr fb)) = control s"
  by (simp add: requestWallpaper_def Let_def split: option.splits)

lemma control_lookup [simp]:
  "control (snd (getWallpaperInternal_lookup e s r sr tk)) = control s"
  by (simp add: getWallpaperInternal_lookup_def Let_def split: sum.splits option.splits)

lemma control_begin [simp]: "control (snd (getWallpaperInternal_begin e s r)) = control s"
  by (simp add: getWallpaperInternal_begin_def)

lemma snd_catchAll [simp]: "snd (catchAll x c) = snd x"
  by (simp add: catchAll_def split: prod.splits sum.splits)

lemma fst_catchAll: "\<exists>v. fst (catchAll x c) = Inr v"
  by (simp add: catchAll_def split: prod.splits sum.splits)

lemma control_resume [simp]:
  "control (snd (getWallpaperInternal_resume e s r u sr fb)) = control s"
proof -
  obtain x s1 where d: "downloadAndCache e s u r = (x, s1)" by (cases "downloadAndCache e s u r")
  then have c: "control s1 = control s" using control_downloadAndCache[of e s u r] by simp
  show ?thesis using d c
    by (auto simp: getWallpaperInternal_resume_def Let_def dest!: control_idb_delete
        split: sum.splits option.splits)
qed

lemma control_settled [simp]:
  "control (snd (getWallpaperInternal_settled e s r u sr fb)) = control s"
  by (simp add: getWallpaperInternal_settled_def)

lemma localStorage_simps [simp]:
  "localStorage (idb_set e s k v) = localStorage s"
  "localStorage (scheduleRetry s r) = localStorage s"
  "localStorage (updateWallpaperInBackground e s r) = localStorage s"
  by (simp_all add: idb_set_def scheduleRetry_def updateWallpaperInBackground_def Let_def)

lemma localStorage_idb_delete: "idb_delete e s k = Inr s' \<Longrightarrow> localStorage s' = localStorage s"
  by (auto simp: idb_delete_def split: if_splits)

lemma localStorage_downloadAndCache [simp]:
  "localStorage (snd (downloadAndCache e s u r)) = localStorage s"
  by (simp add: downloadAndCache_def Let_def split: sum.splits)

lemma localStorage_retryTimerFires [simp]: "localStorage (retryTimerFires e s r) = localStorage s"
  by (simp add: retryTimerFires_def split: option.splits)

lemma localStorage_clearCacheForDate [simp]:
  "localStorage (clearCacheForDate e s r d) = localStorage s"
  by (auto simp: clearCacheForDate_def Let_def dest: localStorage_idb_delete split: sum.splits)

lemma localStorage_cleanupLoop [simp]: "localStorage (cleanupLoop e c ks s) = localStorage s"
  by (induction ks arbitrary: s) (auto dest: localStorage_idb_delete split: option.splits sum.splits)

lemma localStorage_cleanupExpiredCache [simp]:
  "localStorage (cleanupExpiredCache e s) = localStorage s"
  by (simp add: cleanupExpiredCache_def Let_def split: sum.splits)

lemma localStorage_onPageVisibleLoop [simp]:
  "localStorage (onPageVisibleLoop e rs s) = localStorage s"
  by (induction rs arbitrary: s) auto

lemma localStorage_dailyCheckLoop [simp]:
  "localStorage (snd (dailyCheckLoop e rs s)) = localStorage s"
  by (induction rs arbitrary: s) (auto split: sum.splits option.splits)

lemma localStorage_requestWallpaper [simp]:
  "localStorage (snd (requestWallpaper e s r sr fb)) = localStorage s"
  by (simp add: requestWallpaper_def Let_def split: option.splits)

lemma localStorage_lookup [simp]:
  "localStorage (snd (getWallpaperInternal_lookup e s r sr tk)) = localStorage s"
  by (simp add: getWallpaperInternal_lookup_def clearTodayCache_def Let_def
      split: sum.splits option.splits)

lemma localStorage_begin [simp]:
  "localStorage (snd (getWallpaperInternal_begin e s r)) = localStorage s"
  by (simp add: getWallpaperInternal_begin_def)

lemma localStorage_getWallpaper [simp]: "localStorage (getWallpaper e s r) = localStorage s"
  by (simp add: getWallpaper_def Let_def split: option.splits)

lemma daily_key_neq [simp]: "successKey r \<noteq> ''wallpaper-daily-check''"
  by (simp add: successKey_def)

lemma marker_performDailyCheck [simp]: "marker (performDailyCheck e s) r = marker s r"
proof -
  let ?s1 = "s\<lparr>localStorage := AList.update ''wallpaper-daily-check'' (today e) (localStorage s)\<rparr>"
  obtain x s2 where d: "dailyCheckLoop e resolutions ?s1 = (x, s2)"
    by (cases "dailyCheckLoop e resolutions ?s1")
  have "localStorage (snd (dailyCheckLoop e resolutions ?s1)) = localStorage ?s1"
    by (rule localStorage_dailyCheckLoop)
  then have "localStorage s2 = localStorage ?s1" by (simp only: d snd_conv)
  then show ?thesis using d
    by (simp add: performDailyCheck_def marker_def Let_def update_conv' split: option.splits)
qed

lemma successKey_inj [simp]: "(successKey r = successKey r') = (r = r')"
  by (simp add: successKey_def)

lemma idb_scheduleRetry [simp]: "idb (scheduleRetry s r) = idb s"
  by (simp add: scheduleRetry_def Let_def)

lemma idb_markUpdateSuccess [simp]: "idb (markUpdateSuccess e s r) = idb s"
  by (simp add: markUpdateSuccess_def)

lemma marker_scheduleRetry [simp]: "marker (scheduleRetry s r) res = marker s res"
  by (simp add: marker_def)

lemma marker_markUpdateSuccess:
  "marker (markUpdateSuccess e s r) res = (if res = r then Some (today e) else marker s res)"
  by (simp add: marker_def markUpdateSuccess_def update_conv')

lemma marker_idb_delete: "idb_delete e s k = Inr s' \<Longrightarrow> marker s' res = marker s res"
  by (auto simp: idb_delete_def marker_def split: if_splits)

lemma deleted_other:
  "idb_delete e s k = Inr s' \<Longrightarrow> k' \<noteq> k \<Longrightarrow> map_of (idb s') k' = map_of (idb s) k'"
  by (auto simp: idb_delete_def split: if_splits)

lemma freshEntry_idb: "idb s' = idb s \<Longrightarrow> freshEntry e s' r = freshEntry e s r"
  by (simp add: freshEntry_def split: sum.splits)

subsection \<open>The invariant of the deduplication map\<close>

lemma dedupInv_control: "control s' = control s \<Longrightarrow> dedupInv s' = dedupInv s"
  by (simp add: dedupInv_def control_def)

lemma loadingKey_inj [simp]: "(loadingKey r = loadingKey r') = (r = r')"
  by (simp add: loadingKey_def)

lemma dedupInv_init: "dedupInv init"
  by (simp add: dedupInv_def init_def inFlight_def)

lemma settled_ok: "\<exists>w. fst (getWallpaperInternal_settled e s r u sr fb) = Inr w"
  by (simp add: getWallpaperInternal_settled_def fst_catchAll)

lemma filter_remove_nth:
  assumes "i < length xs"
  shows "filter P xs = filter P (take i xs) @ (if P (xs ! i) then [xs ! i] else []) @ filter P (drop (Suc i) xs)"
proof -
  have "xs = take i xs @ xs ! i # drop (Suc i) xs" using assms by (rule id_take_nth_drop)
  then have "filter P xs = filter P (take i xs @ xs ! i # drop (Suc i) xs)" by simp
  then show ?thesis by simp
qed

lemma distinct_map_middle:
  "distinct (map f (ys @ [t] @ zs)) \<Longrightarrow> x \<in> set (ys @ zs) \<Longrightarrow> f x \<noteq> f t"
  by (fastforce simp: image_iff)

lemma distinct_map_move:
  "distinct (map f (ys @ [t] @ zs)) \<Longrightarrow> f t' = f t \<Longrightarrow> distinct (map f (ys @ zs @ [t']))"
  by auto

lemma image_set_move: "f t' = f t \<Longrightarrow> f ` set (ys @ zs @ [t']) = f ` set (ys @ [t] @ zs)"
  by auto

lemma set_move_old: "x \<in> set (ys @ [t] @ zs) \<Longrightarrow> x \<noteq> t \<Longrightarrow> x \<in> set (ys @ zs @ [t'])"
  by auto

lemma set_move_new: "x \<in> set (ys @ zs @ [t']) \<Longrightarrow> x \<noteq> t' \<Longrightarrow> x \<in> set (ys @ [t] @ zs)"
  by auto

lemma dedupInv_settle:
  assumes inv: "dedupInv s" and i: "i < length (tasks s)" and t: "tasks s ! i = t"
    and fg: "is_foreground t"
    and fl: "inFlight s' = filter is_foreground (take i (tasks s))
                           @ filter is_foreground (drop (Suc i) (tasks s))"
    and lp: "map_of (loadingPromises s')
               = (map_of (loadingPromises s))(loadingKey (task_resolution t) := None)"
    and se: "settled s' = settled s @ [(task_promise t, Inr w)]"
    and ca: "calls s' = calls s" and np: "nextPromise s' = nextPromise s"
  shows "dedupInv s'"
proof -
  let ?ys = "filter is_foreground (take i (tasks s))"
  let ?zs = "filter is_foreground (drop (Suc i) (tasks s))"
  let ?r = "task_resolution t"
  let ?p = "task_promise t"
  have sp: "inFlight s = ?ys @ [t] @ ?zs"
    unfolding inFlight_def using filter_remove_nth[OF i, of is_foreground] t fg by simp
  have i1: "\<forall>key q. map_of (loadingPromises s) key = Some q \<longrightarrow>
       (\<exists>x \<in> set (?ys @ [t] @ ?zs). key = loadingKey (task_resolution x) \<and> task_promise x = q)"
    using inv sp by (simp add: dedupInv_def)
  have i2: "\<forall>x \<in> set (?ys @ [t] @ ?zs).
         map_of (loadingPromises s) (loadingKey (task_resolution x)) = Some (task_promise x)
         \<and> task_promise x < nextPromise s \<and> task_promise x \<notin> fst ` set (settled s)"
    using inv sp by (simp add: dedupInv_def)
  have i3: "distinct (map task_resolution (?ys @ [t] @ ?zs))"
    using inv sp by (simp add: dedupInv_def)
  have i4: "distinct (map task_promise (?ys @ [t] @ ?zs))"
    using inv sp by (simp add: dedupInv_def)
  have i5: "\<forall>pr \<in> set (settled s). fst pr < nextPromise s \<and> (\<exists>w. snd pr = Inr w)"
    using inv by (simp add: dedupInv_def)
  have i6: "\<forall>q \<in> set (calls s). q < nextPromise s \<and>
         (q \<in> fst ` set (settled s) \<or> q \<in> task_promise ` set (?ys @ [t] @ ?zs))"
    using inv sp by (simp add: dedupInv_def)
  have g1: "\<forall>key q. ((map_of (loadingPromises s))(loadingKey ?r := None)) key = Some q \<longrightarrow>
       (\<exists>x \<in> set (?ys @ ?zs). key = loadingKey (task_resolution x) \<and> task_promise x = q)"
  proof (intro allI impI)
    fix key q
    assume a: "((map_of (loadingPromises s))(loadingKey ?r := None)) key = Some q"
    then have k: "key \<noteq> loadingKey ?r" and m: "map_of (loadingPromises s) key = Some q"
      by (auto split: if_splits)
    from i1 m obtain x where x: "x \<in> set (?ys @ [t] @ ?zs)"
      "key = loadingKey (task_resolution x)" "task_promise x = q" by blast
    from x(2) k have "x \<noteq> t" by auto
    with x(1) have "x \<in> set (?ys @ ?zs)" by auto
    with x show "\<exists>x \<in> set (?ys @ ?zs). key = loadingKey (task_resolution x) \<and> task_promise x = q"
      by blast
  qed
  have g2: "\<forall>x \<in> set (?ys @ ?zs).
         ((map_of (loadingPromises s))(loadingKey ?r := None)) (loadingKey (task_resolution x))
            = Some (task_promise x)
         \<and> task_promise x < nextPromise s
         \<and> task_promise x \<notin> fst ` set (settled s @ [(?p, Inr w)])"
  proof
    fix x assume x: "x \<in> set (?ys @ ?zs)"
    then have x': "x \<in> set (?ys @ [t] @ ?zs)" by auto
    have r: "task_resolution x \<noteq> ?r" by (rule distinct_map_middle[of task_resolution, OF i3 x])
    have q: "task_promise x \<noteq> ?p" by (rule distinct_map_middle[of task_promise, OF i4 x])
    show "((map_of (loadingPromises s))(loadingKey ?r := None)) (loadingKey (task_resolution x))
            = Some (task_promise x)
         \<and> task_promise x < nextPromise s
         \<and> task_promise x \<notin> fst ` set (settled s @ [(?p, Inr w)])"
      using i2 x' r q by auto
  qed
  have g3: "distinct (map task_resolution (?ys @ ?zs))" using i3 by simp
  have g4: "distinct (map task_promise (?ys @ ?zs))" using i4 by simp
  have g5: "\<forall>pr \<in> set (settled s @ [(?p, Inr w)]). fst pr < nextPromise s \<and> (\<exists>w. snd pr = Inr w)"
    using i5 i2 by simp
  have i7: "distinct (map fst (settled s))" using inv by (simp add: dedupInv_def)
  have g7: "distinct (map fst (settled s @ [(?p, Inr w)]))" using i7 i2 by simp
  have g6: "\<forall>q \<in> set (calls s). q < nextPromise s \<and>
         (q \<in> fst ` set (settled s @ [(?p, Inr w)]) \<or> q \<in> task_promise ` set (?ys @ ?zs))"
  proof
    fix q assume q: "q \<in> set (calls s)"
    then have a: "q < nextPromise s" and
      b: "q \<in> fst ` set (settled s) \<or> q \<in> task_promise ` set (?ys @ [t] @ ?zs)"
      using i6 by auto
    from b have "q \<in> fst ` set (settled s @ [(?p, Inr w)]) \<or> q \<in> task_promise ` set (?ys @ ?zs)"
      by auto
    with a show "q < nextPromise s \<and>
         (q \<in> fst ` set (settled s @ [(?p, Inr w)]) \<or> q \<in> task_promise ` set (?ys @ ?zs))"
      by blast
  qed
  show ?thesis
    unfolding dedupInv_def fl lp se ca np
    using g1 g2 g3 g4 g5 g6 g7 by blast
qed

lemma dedupInv_replace:
  assumes inv: "dedupInv s" and i: "i < length (tasks s)" and t: "tasks s ! i = t"
    and fg: "is_foreground t"
    and r: "task_resolution t' = task_resolution t" and p: "task_promise t' = task_promise t"
    and fl: "inFlight s' = filter is_foreground (take i (tasks s))
                           @ filter is_foreground (drop (Suc i) (tasks s)) @ [t']"
    and lp: "loadingPromises s' = loadingPromises s"
    and se: "settled s' = settled s"
    and ca: "calls s' = calls s" and np: "nextPromise s' = nextPromise s"
  shows "dedupInv s'"
proof -
  let ?ys = "filter is_foreground (take i (tasks s))"
  let ?zs = "filter is_foreground (drop (Suc i) (tasks s))"
  have sp: "inFlight s = ?ys @ [t] @ ?zs"
    unfolding inFlight_def using filter_remove_nth[OF i, of is_foreground] t fg by simp
  have tin: "t \<in> set (?ys @ [t] @ ?zs)" by simp
  have t'in: "t' \<in> set (?ys @ ?zs @ [t'])" by simp
  have i1: "\<forall>key q. map_of (loadingPromises s) key = Some q \<longrightarrow>
       (\<exists>x \<in> set (?ys @ [t] @ ?zs). key = loadingKey (task_resolution x) \<and> task_promise x = q)"
    using inv unfolding dedupInv_def sp by blast
  have i2: "\<forall>x \<in> set (?ys @ [t] @ ?zs).
         map_of (loadingPromises s) (loadingKey (task_resolution x)) = Some (task_promise x)
         \<and> task_promise x < nextPromise s \<and> task_promise x \<notin> fst ` set (settled s)"
    using inv unfolding dedupInv_def sp by blast
  have i3: "distinct (map task_resolution (?ys @ [t] @ ?zs))"
    using inv unfolding dedupInv_def sp by blast
  have i4: "distinct (map task_promise (?ys @ [t] @ ?zs))"
    using inv unfolding dedupInv_def sp by blast
  have i5: "\<forall>pr \<in> set (settled s). fst pr < nextPromise s \<and> (\<exists>w. snd pr = Inr w)"
    using inv unfolding dedupInv_def by blast
  have i6: "\<forall>q \<in> set (calls s). q < nextPromise s \<and>
         (q \<in> fst ` set (settled s) \<or> q \<in> task_promise ` set (?ys @ [t] @ ?zs))"
    using inv unfolding dedupInv_def sp by blast
  have i7: "distinct (map fst (settled s))" using inv unfolding dedupInv_def by blast
  have g1: "\<forall>key q. map_of (loadingPromises s) key = Some q \<longrightarrow>
       (\<exists>x \<in> set (?ys @ ?zs @ [t']). key = loadingKey (task_resolution x) \<and> task_promise x = q)"
  proof (intro allI impI)
    fix key q
    assume m: "map_of (loadingPromises s) key = Some q"
    from i1 m obtain x where x: "x \<in> set (?ys @ [t] @ ?zs)"
      "key = loadingKey (task_resolution x)" "task_promise x = q" by blast
    show "\<exists>x \<in> set (?ys @ ?zs @ [t']). key = loadingKey (task_resolution x) \<and> task_promise x = q"
    proof (cases "x = t")
      case True
      then have "key = loadingKey (task_resolution t') \<and> task_promise t' = q"
        using x r p by simp
      then show ?thesis using t'in by blast
    next
      case False
      have "x \<in> set (?ys @ ?zs @ [t'])" by (rule set_move_old[OF x(1) False])
      then show ?thesis using x by blast
    qed
  qed
  have g2: "\<forall>x \<in> set (?ys @ ?zs @ [t']).
         map_of (loadingPromises s) (loadingKey (task_resolution x)) = Some (task_promise x)
         \<and> task_promise x < nextPromise s \<and> task_promise x \<notin> fst ` set (settled s)"
  proof
    fix x assume x: "x \<in> set (?ys @ ?zs @ [t'])"
    show "map_of (loadingPromises s) (loadingKey (task_resolution x)) = Some (task_promise x)
         \<and> task_promise x < nextPromise s \<and> task_promise x \<notin> fst ` set (settled s)"
    proof (cases "x = t'")
      case True
      have "map_of (loadingPromises s) (loadingKey (task_resolution t)) = Some (task_promise t)
         \<and> task_promise t < nextPromise s \<and> task_promise t \<notin> fst ` set (settled s)"
        using i2 tin by blast
      then show ?thesis unfolding True r p .
    next
      case False
      have "x \<in> set (?ys @ [t] @ ?zs)" by (rule set_move_new[OF x False])
      then show ?thesis using i2 by blast
    qed
  qed
  have g3: "distinct (map task_resolution (?ys @ ?zs @ [t']))"
    by (rule distinct_map_move[of task_resolution, OF i3 r])
  have g4: "distinct (map task_promise (?ys @ ?zs @ [t']))"
    by (rule distinct_map_move[of task_promise, OF i4 p])
  have im: "task_promise ` set (?ys @ ?zs @ [t']) = task_promise ` set (?ys @ [t] @ ?zs)"
    by (rule image_set_move[of task_promise, OF p])
  have g6: "\<forall>q \<in> set (calls s). q < nextPromise s \<and>
         (q \<in> fst ` set (settled s) \<or> q \<in> task_promise ` set (?ys @ ?zs @ [t']))"
    unfolding im by (rule i6)
  show ?thesis
    unfolding dedupInv_def fl lp se ca np
    using g1 g2 g3 g4 i5 g6 i7 by blast
qed

lemma dedupInv_getWallpaper:
  assumes inv: "dedupInv s"
  shows "dedupInv (getWallpaper e s r)"
proof (cases "map_of (loadingPromises s) (loadingKey r)")
  case (Some p)
  then obtain t where t: "t \<in> set (inFlight s)" "task_promise t = p"
    using inv by (auto simp: dedupInv_def)
  have eq: "getWallpaper e s r = s\<lparr>calls := calls s @ [p]\<rparr>"
    using Some by (simp add: getWallpaper_def)
  have "p < nextPromise s" using inv t by (auto simp: dedupInv_def)
  then show ?thesis unfolding eq using inv t
    by (auto simp: dedupInv_def inFlight_def)
next
  case None
  let ?t = "Called (nextPromise s) r (shouldForceRefresh e s r)
            (getTodayCacheKey e r)"
  have eq: "getWallpaper e s r =
      s\<lparr>loadingPromises := AList.update (loadingKey r) (nextPromise s) (loadingPromises s),
         tasks := tasks s @ [?t],
         calls := calls s @ [nextPromise s], nextPromise := nextPromise s + 1\<rparr>"
    using None by (simp add: getWallpaper_def Let_def)
  have nores: "\<forall>t \<in> set (inFlight s). task_resolution t \<noteq> r"
    using inv None by (auto simp: dedupInv_def)
  have lt: "\<forall>t \<in> set (inFlight s). task_promise t < nextPromise s"
    using inv by (auto simp: dedupInv_def)
  have fl: "inFlight (getWallpaper e s r) = inFlight s @ [?t]"
    unfolding eq by (simp add: inFlight_def)
  have lp: "map_of (loadingPromises (getWallpaper e s r))
              = (map_of (loadingPromises s))(loadingKey r \<mapsto> nextPromise s)"
    unfolding eq by (simp add: update_conv')
  have se: "settled (getWallpaper e s r) = settled s" unfolding eq by simp
  have ca: "calls (getWallpaper e s r) = calls s @ [nextPromise s]" unfolding eq by simp
  have np: "nextPromise (getWallpaper e s r) = nextPromise s + 1" unfolding eq by simp
  show ?thesis
    unfolding dedupInv_def fl lp se ca np
    using inv nores lt
    apply (simp add: dedupInv_def)
    apply (intro conjI)
    apply fastforce+
    done
qed

text \<open>What \<^const>\<open>lookupSettles\<close> does to a call that waits: it settles the promise, or it leaves
  a download in flight.\<close>

lemma lookupSettles_cases:
  assumes i: "i < length (tasks s)" and t: "tasks s ! i = Called p r sr tk"
  obtains (returned) w s1 where
      "catchAll (getWallpaperInternal_lookup e
          (s\<lparr>tasks := take i (tasks s) @ drop (Suc i) (tasks s)\<rparr>) r sr tk) (Returned errorWallpaper)
         = (Inr (Returned w), s1)"
      "lookupSettles e s i =
         s1\<lparr>settled := settled s1 @ [(p, Inr w)],
            loadingPromises := AList.delete (loadingKey r) (loadingPromises s1)\<rparr>"
    | (requested) u sr' fb s1 where
      "catchAll (getWallpaperInternal_lookup e
          (s\<lparr>tasks := take i (tasks s) @ drop (Suc i) (tasks s)\<rparr>) r sr tk) (Returned errorWallpaper)
         = (Inr (Requested u sr' fb), s1)"
      "lookupSettles e s i = s1\<lparr>tasks := tasks s1 @ [Foreground p r u sr' fb]\<rparr>"
proof -
  let ?s0 = "s\<lparr>tasks := take i (tasks s) @ drop (Suc i) (tasks s)\<rparr>"
  let ?c = "catchAll (getWallpaperInternal_lookup e ?s0 r sr tk) (Returned errorWallpaper)"
  obtain x s1 where st: "?c = (x, s1)" by (cases ?c)
  obtain v where x: "x = Inr v"
    using fst_catchAll[of "getWallpaperInternal_lookup e ?s0 r sr tk" "Returned errorWallpaper"] st
    by auto
  show thesis
  proof (cases v)
    case (Returned w)
    have "lookupSettles e s i =
         s1\<lparr>settled := settled s1 @ [(p, Inr w)],
            loadingPromises := AList.delete (loadingKey r) (loadingPromises s1)\<rparr>"
      using i t st x Returned by (simp add: lookupSettles_def Let_def)
    then show ?thesis using returned st x Returned by blast
  next
    case (Requested u sr' fb)
    have "lookupSettles e s i = s1\<lparr>tasks := tasks s1 @ [Foreground p r u sr' fb]\<rparr>"
      using i t st x Requested by (simp add: lookupSettles_def Let_def)
    then show ?thesis using requested st x Requested by blast
  qed
qed

lemma lookupSettles_other:
  "\<not> (i < length (tasks s) \<and> (\<exists>p r sr tk. tasks s ! i = Called p r sr tk)) \<Longrightarrow> lookupSettles e s i = s"
  by (cases "tasks s ! i") (auto simp: lookupSettles_def)

lemma control_removed:
  "control (s\<lparr>tasks := take i (tasks s) @ drop (Suc i) (tasks s)\<rparr>)
     = (filter is_foreground (take i (tasks s)) @ filter is_foreground (drop (Suc i) (tasks s)),
        loadingPromises s, settled s, calls s, nextPromise s)"
  by (simp add: control_def inFlight_def)

lemma control_after_lookup:
  assumes "catchAll (getWallpaperInternal_lookup e s0 r sr tk) c = (x, s1)"
  shows "control s1 = control s0"
proof -
  have "control (snd (catchAll (getWallpaperInternal_lookup e s0 r sr tk) c)) = control s0"
    by simp
  then show ?thesis by (simp only: assms snd_conv)
qed

lemma localStorage_lookupSettles [simp]: "localStorage (lookupSettles e s i) = localStorage s"
proof (cases "i < length (tasks s) \<and> (\<exists>p r sr tk. tasks s ! i = Called p r sr tk)")
  case False
  then show ?thesis using lookupSettles_other by simp
next
  case True
  then obtain p r sr tk where i: "i < length (tasks s)" and t: "tasks s ! i = Called p r sr tk"
    by blast
  let ?s0 = "s\<lparr>tasks := take i (tasks s) @ drop (Suc i) (tasks s)\<rparr>"
  have l: "\<And>x s1. catchAll (getWallpaperInternal_lookup e ?s0 r sr tk) (Returned errorWallpaper)
                 = (x, s1) \<Longrightarrow> localStorage s1 = localStorage s"
  proof -
    fix x s1
    assume a: "catchAll (getWallpaperInternal_lookup e ?s0 r sr tk) (Returned errorWallpaper) = (x, s1)"
    have "localStorage (snd (catchAll (getWallpaperInternal_lookup e ?s0 r sr tk)
            (Returned errorWallpaper))) = localStorage ?s0"
      by simp
    then show "localStorage s1 = localStorage s" by (simp only: a snd_conv) simp
  qed
  from i t show ?thesis
  proof (cases rule: lookupSettles_cases[where e = e])
    case (returned w s1)
    show ?thesis unfolding returned(2) using l[OF returned(1)] by simp
  next
    case (requested u sr' fb s1)
    show ?thesis unfolding requested(2) using l[OF requested(1)] by simp
  qed
qed

lemma dedupInv_lookupSettles:
  assumes inv: "dedupInv s"
  shows "dedupInv (lookupSettles e s i)"
proof (cases "i < length (tasks s) \<and> (\<exists>p r sr tk. tasks s ! i = Called p r sr tk)")
  case False
  then show ?thesis using inv lookupSettles_other by simp
next
  case True
  then obtain p r sr tk where i: "i < length (tasks s)" and t: "tasks s ! i = Called p r sr tk"
    by blast
  let ?s0 = "s\<lparr>tasks := take i (tasks s) @ drop (Suc i) (tasks s)\<rparr>"
  from i t show ?thesis
  proof (cases rule: lookupSettles_cases[where e = e])
    case (returned w s1)
    have c: "control s1 = control ?s0" by (rule control_after_lookup[OF returned(1)])
    show ?thesis
    proof (rule dedupInv_settle[OF inv i t, where w = w])
      show "is_foreground (Called p r sr tk)" by simp
      show "inFlight (lookupSettles e s i) = filter is_foreground (take i (tasks s))
                           @ filter is_foreground (drop (Suc i) (tasks s))"
        unfolding returned(2) using c by (simp add: control_removed) (simp add: control_def inFlight_def)
      show "map_of (loadingPromises (lookupSettles e s i))
               = (map_of (loadingPromises s))(loadingKey (task_resolution (Called p r sr tk)) := None)"
        unfolding returned(2) using c by (simp add: control_removed) (simp add: control_def delete_conv')
      show "settled (lookupSettles e s i) = settled s @ [(task_promise (Called p r sr tk), Inr w)]"
        unfolding returned(2) using c by (simp add: control_removed) (simp add: control_def)
      show "calls (lookupSettles e s i) = calls s"
        unfolding returned(2) using c by (simp add: control_removed) (simp add: control_def)
      show "nextPromise (lookupSettles e s i) = nextPromise s"
        unfolding returned(2) using c by (simp add: control_removed) (simp add: control_def)
    qed
  next
    case (requested u sr' fb s1)
    have c: "control s1 = control ?s0" by (rule control_after_lookup[OF requested(1)])
    show ?thesis
    proof (rule dedupInv_replace[OF inv i t, where t' = "Foreground p r u sr' fb"])
      show "is_foreground (Called p r sr tk)" by simp
      show "task_resolution (Foreground p r u sr' fb) = task_resolution (Called p r sr tk)" by simp
      show "task_promise (Foreground p r u sr' fb) = task_promise (Called p r sr tk)" by simp
      show "inFlight (lookupSettles e s i) = filter is_foreground (take i (tasks s))
                 @ filter is_foreground (drop (Suc i) (tasks s)) @ [Foreground p r u sr' fb]"
        unfolding requested(2) using c by (simp add: control_removed) (simp add: control_def inFlight_def)
      show "loadingPromises (lookupSettles e s i) = loadingPromises s"
        unfolding requested(2) using c by (simp add: control_removed) (simp add: control_def)
      show "settled (lookupSettles e s i) = settled s"
        unfolding requested(2) using c by (simp add: control_removed) (simp add: control_def)
      show "calls (lookupSettles e s i) = calls s"
        unfolding requested(2) using c by (simp add: control_removed) (simp add: control_def)
      show "nextPromise (lookupSettles e s i) = nextPromise s"
        unfolding requested(2) using c by (simp add: control_removed) (simp add: control_def)
    qed
  qed
qed

lemma dedupInv_downloadSettles:
  assumes inv: "dedupInv s"
  shows "dedupInv (downloadSettles e s i)"
proof (cases "i < length (tasks s)")
  case False
  then show ?thesis using inv by (simp add: downloadSettles_def)
next
  case True
  let ?s0 = "s\<lparr>tasks := take i (tasks s) @ drop (Suc i) (tasks s)\<rparr>"
  let ?ys = "filter is_foreground (take i (tasks s))"
  let ?zs = "filter is_foreground (drop (Suc i) (tasks s))"
  have split: "inFlight s = ?ys @ (if is_foreground (tasks s ! i) then [tasks s ! i] else []) @ ?zs"
    unfolding inFlight_def using filter_remove_nth[OF True] by blast
  have fl0: "inFlight ?s0 = ?ys @ ?zs" by (simp add: inFlight_def)
  show ?thesis
  proof (cases "tasks s ! i")
    case (Called p r sr tk)
    then show ?thesis using True inv by (simp add: downloadSettles_def Let_def)
  next
    case (Background r u)
    have "control (downloadSettles e s i) = control ?s0"
      using True Background by (simp add: downloadSettles_def Let_def)
    also have "\<dots> = control s"
      using split fl0 Background by (simp add: control_def)
    finally show ?thesis using inv dedupInv_control by blast
  next
    case (Foreground p r u sr fb)
    obtain x s1 where st: "getWallpaperInternal_settled e ?s0 r u sr fb = (x, s1)"
      by (cases "getWallpaperInternal_settled e ?s0 r u sr fb")
    have "control (snd (getWallpaperInternal_settled e ?s0 r u sr fb)) = control ?s0"
      by (rule control_settled)
    then have c: "control s1 = control ?s0" by (simp only: st snd_conv)
    obtain w where x: "x = Inr w" using settled_ok[of e ?s0 r u sr fb] st by auto
    have eq: "downloadSettles e s i =
        s1\<lparr>settled := settled s1 @ [(p, Inr w)],
           loadingPromises := AList.delete (loadingKey r) (loadingPromises s1)\<rparr>"
      using True Foreground st x by (simp add: downloadSettles_def Let_def)
    show ?thesis
    proof (rule dedupInv_settle[OF inv True Foreground, where w = w])
      show "is_foreground (Foreground p r u sr fb)" by simp
      show "inFlight (downloadSettles e s i) = ?ys @ ?zs"
        unfolding eq using c fl0 by (simp add: control_def inFlight_def)
      show "map_of (loadingPromises (downloadSettles e s i))
              = (map_of (loadingPromises s))(loadingKey (task_resolution (Foreground p r u sr fb)) := None)"
        unfolding eq using c by (simp add: control_def delete_conv')
      show "settled (downloadSettles e s i)
              = settled s @ [(task_promise (Foreground p r u sr fb), Inr w)]"
        unfolding eq using c by (simp add: control_def)
      show "calls (downloadSettles e s i) = calls s" unfolding eq using c by (simp add: control_def)
      show "nextPromise (downloadSettles e s i) = nextPromise s"
        unfolding eq using c by (simp add: control_def)
    qed
  qed
qed

lemma dedupInv_step: "dedupInv s \<Longrightarrow> dedupInv (step e ev s)"
proof (cases ev)
  case (GetWallpaper r)
  assume "dedupInv s"
  then show ?thesis using GetWallpaper dedupInv_getWallpaper by simp
next
  case (LookupSettles i)
  assume "dedupInv s"
  then show ?thesis using LookupSettles dedupInv_lookupSettles by simp
next
  case (DownloadSettles i)
  assume "dedupInv s"
  then show ?thesis using DownloadSettles dedupInv_downloadSettles by simp
next
  case (RetryTimerFires r)
  assume "dedupInv s"
  then show ?thesis using RetryTimerFires dedupInv_control[of "retryTimerFires e s r" s] by simp
next
  case PageVisible
  assume "dedupInv s"
  then show ?thesis using PageVisible dedupInv_control[of "onPageVisible e s" s] by simp
next
  case DailyCheck
  assume "dedupInv s"
  then show ?thesis using DailyCheck dedupInv_control[of "performDailyCheck e s" s] by simp
next
  case CleanupExpiredCache
  assume "dedupInv s"
  then show ?thesis using CleanupExpiredCache dedupInv_control[of "cleanupExpiredCache e s" s] by simp
next
  case (ClearCacheForDate r d)
  assume "dedupInv s"
  then show ?thesis using ClearCacheForDate dedupInv_control[of "clearCacheForDate e s r d" s] by simp
qed

lemma dedupInv_run: "dedupInv s \<Longrightarrow> dedupInv (run es s)"
proof (induction es arbitrary: s)
  case Nil
  then show ?case by simp
next
  case (Cons a es)
  obtain e ev where a: "a = (e, ev)" by (cases a)
  show ?case using Cons a dedupInv_step by simp
qed

lemma dedupInv_reachable: "dedupInv (run es init)"
  by (rule dedupInv_run[OF dedupInv_init])

lemma dedupInv_entryD:
  "dedupInv s \<Longrightarrow> map_of (loadingPromises s) key = Some p \<Longrightarrow>
     \<exists>t \<in> set (inFlight s). key = loadingKey (task_resolution t) \<and> task_promise t = p"
  unfolding dedupInv_def by blast

lemma dedupInv_taskD:
  "dedupInv s \<Longrightarrow> t \<in> set (inFlight s) \<Longrightarrow>
     map_of (loadingPromises s) (loadingKey (task_resolution t)) = Some (task_promise t)
     \<and> task_promise t < nextPromise s \<and> task_promise t \<notin> fst ` set (settled s)"
  unfolding dedupInv_def by blast

lemma dedupInv_callD:
  "dedupInv s \<Longrightarrow> p \<in> set (calls s) \<Longrightarrow> p < nextPromise s"
  unfolding dedupInv_def by blast

lemma in_set_nth_split: "i < length xs \<Longrightarrow> xs ! i \<in> set xs" by simp

lemma downloadSettles_foreground:
  assumes inv: "dedupInv s" and i: "i < length (tasks s)"
    and t: "tasks s ! i = Foreground p resolution u sr fb"
  shows "map_of (loadingPromises s) (loadingKey resolution) = Some p
     \<and> map_of (loadingPromises (downloadSettles e s i)) (loadingKey resolution) = None
     \<and> (\<exists>w. map_of (settled (downloadSettles e s i)) p = Some (Inr w))
     \<and> calls (downloadSettles e s i) = calls s
     \<and> nextPromise (downloadSettles e s i) = nextPromise s"
proof -
  let ?s' = "downloadSettles e s i"
  let ?s0 = "s\<lparr>tasks := take i (tasks s) @ drop (Suc i) (tasks s)\<rparr>"
  have mem: "Foreground p resolution u sr fb \<in> set (inFlight s)"
    using i t in_set_nth_split[of i "tasks s"] by (auto simp: inFlight_def)
  have lp: "map_of (loadingPromises s) (loadingKey resolution) = Some p"
    using dedupInv_taskD[OF inv mem] by simp
  obtain x s1 where st: "getWallpaperInternal_settled e ?s0 resolution u sr fb = (x, s1)"
    by (cases "getWallpaperInternal_settled e ?s0 resolution u sr fb")
  have "control (snd (getWallpaperInternal_settled e ?s0 resolution u sr fb)) = control ?s0"
    by (rule control_settled)
  then have c: "control s1 = control ?s0" by (simp only: st snd_conv)
  obtain w where x: "x = Inr w" using settled_ok[of e ?s0 resolution u sr fb] st by auto
  have eq: "?s' = s1\<lparr>settled := settled s1 @ [(p, Inr w)],
         loadingPromises := AList.delete (loadingKey resolution) (loadingPromises s1)\<rparr>"
    using i t st x by (simp add: downloadSettles_def Let_def)
  have none: "map_of (loadingPromises ?s') (loadingKey resolution) = None"
    unfolding eq by (simp add: delete_conv')
  have notin: "p \<notin> fst ` set (settled s)" using dedupInv_taskD[OF inv mem] by simp
  have "settled ?s' = settled s @ [(p, Inr w)]" unfolding eq using c by (simp add: control_def)
  moreover have "map_of (settled s) p = None" using notin by (simp add: map_of_eq_None_iff)
  ultimately have "map_of (settled ?s') p = Some (Inr w)"
    by (simp add: map_add_def)
  then have se: "\<exists>w. map_of (settled ?s') p = Some (Inr w)" by blast
  have np: "nextPromise ?s' = nextPromise s" and ca: "calls ?s' = calls s"
    unfolding eq using c by (simp_all add: control_def)
  show ?thesis using lp none se np ca by blast
qed

lemma dedupInv_settledD:
  "dedupInv s \<Longrightarrow> p \<in> fst ` set (settled s) \<Longrightarrow> \<exists>w. map_of (settled s) p = Some (Inr w)"
proof -
  assume inv: "dedupInv s" and p: "p \<in> fst ` set (settled s)"
  then obtain v where v: "map_of (settled s) p = Some v"
    by (cases "map_of (settled s) p") (auto simp: map_of_eq_None_iff)
  then have "(p, v) \<in> set (settled s)" by (rule map_of_SomeD)
  then have "\<exists>w. v = Inr w" using inv unfolding dedupInv_def by fastforce
  then show ?thesis using v by blast
qed

subsection \<open>Running the resolver\<close>

lemma downloadAndCache_fails:
  "downloadFailure e = Some err \<Longrightarrow> downloadAndCache e s u r = (Inl err, s)"
  by (auto simp: downloadFailure_def downloadAndCache_def Let_def split: sum.splits if_splits)

lemma downloadAndCache_Inr:
  assumes "downloadAndCache e s u r = (Inr d, s1)"
  shows "\<exists>resp. netResponse e = Inr resp \<and> blob_size (body resp) \<noteq> 0
     \<and> \<not> str_includes (contentType resp) ''application/json''
     \<and> createBlobUrl e (body resp) = Inr (blobUrl d)
     \<and> isFallback d = (r = ''4k'' \<and> blob_size (body resp) < 500 * 1024)
     \<and> (isFallback d \<longrightarrow> s1 = s)
     \<and> (\<not> isFallback d \<longrightarrow>
          s1 = idb_set e (idb_set e s (getTodayCacheKey e r) (body resp))
                 (getTodayCacheKey e r @ ''-metadata'') (MetadataBlob (dl_originalUrl d)))"
  using assms
  by (auto simp: downloadAndCache_def Let_def split: sum.splits if_splits)

lemma downloadAndCache_Inl: "downloadAndCache e s u r = (Inl err, s1) \<Longrightarrow> s1 = s"
  by (auto simp: downloadAndCache_def Let_def split: sum.splits if_splits)

lemma begin_no_cache:
  "resolution \<noteq> ''custom'' \<Longrightarrow> getSmartCache e s resolution = None \<Longrightarrow>
   getWallpaperInternal_begin e s resolution
     = requestWallpaper e s resolution (shouldForceRefresh e s resolution) None"
  by (simp add: getWallpaperInternal_begin_def getWallpaperInternal_lookup_def getSmartCache_def
      Let_def)

lemma requestWallpaper_unconfigured:
  "getWallpaperUrl e resolution = fallbackImage \<Longrightarrow>
   requestWallpaper e s resolution sr None = (Inr (Returned localDefault), s)"
  by (simp add: requestWallpaper_def Let_def localDefault_def)

lemma requestWallpaper_configured:
  "getWallpaperUrl e resolution \<noteq> fallbackImage \<Longrightarrow>
   requestWallpaper e s resolution sr fb
     = (Inr (Requested (getWallpaperUrl e resolution) sr fb),
        s\<lparr>requests := requests s @ [downloadRequest e (getWallpaperUrl e resolution)]\<rparr>)"
  by (simp add: requestWallpaper_def Let_def)

lemma resume_fails_no_fallback:
  "downloadFailure e = Some err \<Longrightarrow>
   getWallpaperInternal_resume e s resolution u sr None = (Inl err, s)"
  by (simp add: getWallpaperInternal_resume_def downloadAndCache_fails)

lemma getWallpaperInternal_no_cache_fails:
  assumes "resolution \<noteq> ''custom''" and "getSmartCache e s resolution = None"
    and "downloadFailure e = Some err"
  shows "getWallpaperInternal e s resolution =
     (if getWallpaperUrl e resolution = fallbackImage then (Inr localDefault, s)
      else (Inr errorWallpaper,
            s\<lparr>requests := requests s @ [downloadRequest e (getWallpaperUrl e resolution)]\<rparr>))"
  using assms
  by (simp add: getWallpaperInternal_def begin_no_cache requestWallpaper_unconfigured
      requestWallpaper_configured resume_fails_no_fallback catchAll_def)

lemma getWallpaperInternal_ok: "\<exists>w s'. getWallpaperInternal e s resolution = (Inr w, s')"
proof -
  obtain x s' where a: "getWallpaperInternal e s resolution = (x, s')"
    by (cases "getWallpaperInternal e s resolution")
  have "\<exists>v. fst (getWallpaperInternal e s resolution) = Inr v"
    unfolding getWallpaperInternal_def by (rule fst_catchAll)
  then show ?thesis using a by simp
qed

lemma getSmartCache_empty: "idb s = [] \<Longrightarrow> getSmartCache e s resolution = None"
  by (simp add: getSmartCache_def getSmartCache_from_def idb_get_def idb_getAllKeys_def wallpaperKeysOf_def Let_def)

lemma getSmartCache_from_empty: "idb s = [] \<Longrightarrow> getSmartCache_from e s resolution tk = None"
  by (simp add: getSmartCache_from_def idb_get_def idb_getAllKeys_def wallpaperKeysOf_def Let_def)

lemma lookup_no_cache:
  "resolution \<noteq> ''custom'' \<Longrightarrow> getSmartCache_from e s resolution tk = None \<Longrightarrow>
   getWallpaperInternal_lookup e s resolution sr tk = requestWallpaper e s resolution sr None"
  by (simp add: getWallpaperInternal_lookup_def Let_def)

lemma lookupSettles_first:
  assumes "resolution \<noteq> ''custom''" and "idb s = []"
    and "i < length (tasks s)" and "tasks s ! i = Called p resolution sr tk"
    and "getWallpaperUrl e resolution \<noteq> fallbackImage"
  shows "lookupSettles e s i =
     s\<lparr>tasks := take i (tasks s) @ drop (Suc i) (tasks s)
                 @ [Foreground p resolution (getWallpaperUrl e resolution) sr None],
       requests := requests s @ [downloadRequest e (getWallpaperUrl e resolution)]\<rparr>"
  using assms
  by (simp add: lookupSettles_def lookup_no_cache getSmartCache_from_empty
      requestWallpaper_configured catchAll_def Let_def)

lemma afterCall_eq:
  "getWallpaper onlineEnv init ''1080p'' =
     init\<lparr>loadingPromises := [(loadingKey ''1080p'', 0)],
       tasks := [Called 0 ''1080p'' True (getTodayCacheKey onlineEnv ''1080p'')], calls := [0], nextPromise := 1\<rparr>"
  by (simp add: getWallpaper_def init_def shouldForceRefresh_def Let_def)

lemma custom_neq: "''1080p'' \<noteq> ''custom''" by simp

lemma jpeg_not_json: "\<not> str_includes ''image/jpeg'' ''application/json''"
  by (simp add: startsWith_def)

lemma unconfiguredEnv_url: "getWallpaperUrl unconfiguredEnv resolution = fallbackImage"
  by (simp add: getWallpaperUrl_def unconfiguredEnv_def dropTrailingSlash_def)

lemma smallEnv_response:
  "netResponse smallEnv =
     Inr \<lparr>contentType = ''image/jpeg'', wallpaperSource = ''https://www.bing.com/th?id=OHR.jpg'',
          body = ImageBlob (100 * 1024) ''jpeg''\<rparr>"
  "createBlobUrl smallEnv b = Inr ''blob:wallpaper''"
  by (simp_all add: smallEnv_def offlineEnv_def)

lemma example_days:
  "daysAgo 1 (2024, 5, 10) = (2024, 5, 9)" "daysAgo 3 (2024, 5, 10) = (2024, 5, 7)"
  "daysAgo 1 (2024, 5, 15) = (2024, 5, 14)" "daysAgo 3 (2024, 5, 15) = (2024, 5, 12)"
  by (simp_all add: numeral_3_eq_3)

lemma example_dates:
  "today offlineEnv = ''2024-05-10''" "yesterday offlineEnv = ''2024-05-09''"
  "threeDaysAgo offlineEnv = ''2024-05-07''"
  "today onlineEnv = ''2024-05-10''" "yesterday onlineEnv = ''2024-05-09''"
  "threeDaysAgo onlineEnv = ''2024-05-07''"
  "today laterEnv = ''2024-05-15''" "yesterday laterEnv = ''2024-05-14''"
  "threeDaysAgo laterEnv = ''2024-05-12''"
  unfolding today_def yesterday_def threeDaysAgo_def laterEnv_def onlineEnv_def offlineEnv_def
  by (simp_all add: example_days isoDate_def pad4_def pad2_def digitChar_def del: One_nat_def)

lemma onlineEnv_fields:
  "today onlineEnv = ''2024-05-10''" "yesterday onlineEnv = ''2024-05-09''"
  "threeDaysAgo onlineEnv = ''2024-05-07''"
  "netResponse onlineEnv =
     Inr \<lparr>contentType = ''image/jpeg'', wallpaperSource = ''https://www.bing.com/th?id=OHR.jpg'',
          body = ImageBlob (2048 * 1024) ''jpeg''\<rparr>"
  "createBlobUrl onlineEnv b = Inr ''blob:wallpaper''"
  "idbReadFails onlineEnv = False" "idbWriteFails onlineEnv = False" "idbDeleteFails onlineEnv = False"
  "supabaseUrl onlineEnv = ''https://x.supabase.co''"
  apply (rule example_dates)
  apply (rule example_dates)
  apply (rule example_dates)
  by (simp_all add: onlineEnv_def offlineEnv_def)

lemma onlineEnv_configured: "getWallpaperUrl onlineEnv resolution \<noteq> fallbackImage"
  by (simp add: getWallpaperUrl_configured dropTrailingSlash_def onlineEnv_fields)

lemma onlineEnv_datesWellFormed: "datesWellFormed onlineEnv"
  by (simp add: datesWellFormed_def onlineEnv_fields isDigit_def)

lemma laterEnv_fields:
  "threeDaysAgo laterEnv = ''2024-05-12''" "idbReadFails laterEnv = False"
  "idbDeleteFails laterEnv = False"
  apply (rule example_dates)
  by (simp_all add: laterEnv_def offlineEnv_def)

lemma laterEnv_more:
  "today laterEnv = ''2024-05-15''" "yesterday laterEnv = ''2024-05-14''"
  "createBlobUrl laterEnv (ImageBlob n bytes) = Inr ''blob:wallpaper''"
  apply (rule example_dates)
  apply (rule example_dates)
  by (simp_all add: laterEnv_def offlineEnv_def)

lemma afterRequest_eq:
  "afterRequest =
     init\<lparr>requests := [downloadRequest onlineEnv (getWallpaperUrl onlineEnv ''1080p'')],
       loadingPromises := [(loadingKey ''1080p'', 0)],
       tasks := [Foreground 0 ''1080p'' (getWallpaperUrl onlineEnv ''1080p'') True None],
       calls := [0], nextPromise := 1\<rparr>"
proof -
  let ?s = "init\<lparr>loadingPromises := [(loadingKey ''1080p'', 0)],
       tasks := [Called 0 ''1080p'' True (getTodayCacheKey onlineEnv ''1080p'')], calls := [0], nextPromise := 1\<rparr>"
  have "lookupSettles onlineEnv ?s 0 =
     ?s\<lparr>tasks := take 0 (tasks ?s) @ drop (Suc 0) (tasks ?s)
                 @ [Foreground 0 ''1080p'' (getWallpaperUrl onlineEnv ''1080p'') True None],
       requests := requests ?s @ [downloadRequest onlineEnv (getWallpaperUrl onlineEnv ''1080p'')]\<rparr>"
    by (rule lookupSettles_first) (simp_all add: init_def onlineEnv_configured)
  moreover have "afterRequest = lookupSettles onlineEnv ?s 0"
    by (simp add: afterRequest_def afterCall_eq)
  ultimately show ?thesis by (simp add: init_def)
qed

lemma afterDownload_stores:
  "idb afterDownload =
     [(cacheKeyFor ''1080p'' ''2024-05-10'', ImageBlob (2048 * 1024) ''jpeg''),
      (cacheKeyFor ''1080p'' ''2024-05-10'' @ ''-metadata'',
       MetadataBlob ''https://www.bing.com/th?id=OHR.jpg'')]"
  "localStorage afterDownload = [(successKey ''1080p'', ''2024-05-10'')]"
  using jpeg_not_json
  by (simp_all add: afterDownload_def afterRequest_eq downloadSettles_def init_def
      getWallpaperInternal_settled_def getWallpaperInternal_resume_def downloadAndCache_def
      onlineEnv_fields startsWith_def idb_set_def idb_delete_def markUpdateSuccess_def
      getTodayCacheKey_def getYesterdayCacheKey_def cacheKeyFor_def catchAll_def Let_def)

subsection \<open>getWallpaper always resolves\<close>

lemma lookupSettles_called:
  assumes inv: "dedupInv s" and i: "i < length (tasks s)" and t: "tasks s ! i = Called p r sr tk"
  shows "map_of (loadingPromises s) (loadingKey r) = Some p
     \<and> calls (lookupSettles e s i) = calls s
     \<and> nextPromise (lookupSettles e s i) = nextPromise s
     \<and> ((map_of (loadingPromises (lookupSettles e s i)) (loadingKey r) = None
          \<and> (\<exists>w. map_of (settled (lookupSettles e s i)) p = Some (Inr w)))
        \<or> (map_of (loadingPromises (lookupSettles e s i)) (loadingKey r) = Some p
           \<and> map_of (settled (lookupSettles e s i)) p = None
           \<and> tasks (lookupSettles e s i) \<noteq> []
           \<and> (\<exists>u sr' fb. last (tasks (lookupSettles e s i)) = Foreground p r u sr' fb)))"
proof -
  let ?s' = "lookupSettles e s i"
  let ?s0 = "s\<lparr>tasks := take i (tasks s) @ drop (Suc i) (tasks s)\<rparr>"
  have mem: "Called p r sr tk \<in> set (inFlight s)"
    using i t in_set_nth_split[of i "tasks s"] by (auto simp: inFlight_def)
  have lp: "map_of (loadingPromises s) (loadingKey r) = Some p"
    using dedupInv_taskD[OF inv mem] by simp
  have notin: "p \<notin> fst ` set (settled s)" using dedupInv_taskD[OF inv mem] by simp
  then have none: "map_of (settled s) p = None" by (simp add: map_of_eq_None_iff)
  from i t show ?thesis
  proof (cases rule: lookupSettles_cases[where e = e])
    case (returned w s1)
    have c: "control s1 = control ?s0" by (rule control_after_lookup[OF returned(1)])
    have se: "settled ?s' = settled s @ [(p, Inr w)]"
      unfolding returned(2) using c by (simp add: control_removed) (simp add: control_def)
    have "map_of (settled ?s') p = Some (Inr w)"
      unfolding se using none by (simp add: map_add_def)
    moreover have "map_of (loadingPromises ?s') (loadingKey r) = None"
      unfolding returned(2) by (simp add: delete_conv')
    moreover have "calls ?s' = calls s" "nextPromise ?s' = nextPromise s"
      unfolding returned(2) using c by (simp_all add: control_removed) (simp_all add: control_def)
    ultimately show ?thesis using lp by blast
  next
    case (requested u sr' fb s1)
    have c: "control s1 = control ?s0" by (rule control_after_lookup[OF requested(1)])
    have "loadingPromises ?s' = loadingPromises s" "settled ?s' = settled s"
      "calls ?s' = calls s" "nextPromise ?s' = nextPromise s"
      unfolding requested(2) using c by (simp_all add: control_removed) (simp_all add: control_def)
    moreover have "tasks ?s' \<noteq> []" "last (tasks ?s') = Foreground p r u sr' fb"
      unfolding requested(2) by simp_all
    ultimately show ?thesis using lp none by simp
  qed
qed

lemma promise_progress:
  assumes inv: "dedupInv s" and p: "p \<in> set (calls s)"
  shows "fulfilled s p
     \<or> (\<exists>i. downloadFulfils s i p)
     \<or> (\<exists>i < length (tasks s). (\<exists>r sr tk. tasks s ! i = Called p r sr tk)
           \<and> (\<forall>e'. fulfilled (step e' (LookupSettles i) s) p
                    \<or> (\<exists>j. downloadFulfils (step e' (LookupSettles i) s) j p)))"
proof -
  have "p \<in> fst ` set (settled s) \<or> p \<in> task_promise ` set (inFlight s)"
    using inv p unfolding dedupInv_def by blast
  then show ?thesis
  proof
    assume "p \<in> fst ` set (settled s)"
    then show ?thesis using dedupInv_settledD[OF inv] by (simp add: fulfilled_def)
  next
    assume "p \<in> task_promise ` set (inFlight s)"
    then obtain t where t: "t \<in> set (tasks s)" "is_foreground t" "task_promise t = p"
      by (auto simp: inFlight_def)
    then obtain i where i: "i < length (tasks s)" "tasks s ! i = t"
      by (auto simp: in_set_conv_nth)
    show ?thesis
    proof (cases t)
      case (Background r u)
      then show ?thesis using t(2) by simp
    next
      case (Foreground q r u sr fb)
      then have q: "q = p" using t(3) by simp
      have ti: "tasks s ! i = Foreground p r u sr fb" using i Foreground q by simp
      have "\<forall>e. fulfilled (step e (DownloadSettles i) s) p"
        using downloadSettles_foreground[OF inv i(1) ti] by (simp add: fulfilled_def)
      then have "downloadFulfils s i p" using i(1) ti by (simp add: downloadFulfils_def)
      then show ?thesis by blast
    next
      case (Called q r sr tk)
      then have q: "q = p" using t(3) by simp
      have ti: "tasks s ! i = Called p r sr tk" using i Called q by simp
      have "\<forall>e'. fulfilled (step e' (LookupSettles i) s) p
                    \<or> (\<exists>j. downloadFulfils (step e' (LookupSettles i) s) j p)"
      proof
        fix e'
        let ?s' = "lookupSettles e' s i"
        have inv': "dedupInv ?s'" by (rule dedupInv_lookupSettles[OF inv])
        from lookupSettles_called[OF inv i(1) ti, of e']
        have "(\<exists>w. map_of (settled ?s') p = Some (Inr w))
            \<or> (tasks ?s' \<noteq> [] \<and> (\<exists>u sr' fb. last (tasks ?s') = Foreground p r u sr' fb))"
          by blast
        then show "fulfilled (step e' (LookupSettles i) s) p
                    \<or> (\<exists>j. downloadFulfils (step e' (LookupSettles i) s) j p)"
        proof
          assume "\<exists>w. map_of (settled ?s') p = Some (Inr w)"
          then show ?thesis by (simp add: fulfilled_def)
        next
          assume a: "tasks ?s' \<noteq> [] \<and> (\<exists>u sr' fb. last (tasks ?s') = Foreground p r u sr' fb)"
          then obtain u sr' fb where l: "last (tasks ?s') = Foreground p r u sr' fb" by blast
          let ?j = "length (tasks ?s') - 1"
          have j: "?j < length (tasks ?s')" using a by simp
          have tj: "tasks ?s' ! ?j = Foreground p r u sr' fb"
            using a l by (simp add: last_conv_nth)
          have "\<forall>e. fulfilled (step e (DownloadSettles ?j) ?s') p"
            using downloadSettles_foreground[OF inv' j tj] by (simp add: fulfilled_def)
          then have "downloadFulfils ?s' ?j p" using j tj by (simp add: downloadFulfils_def)
          then show ?thesis by auto
        qed
      qed
      then show ?thesis using i(1) ti by blast
    qed
  qed
qed

text \<open>
  C1. For every resolution and whatever the collaborators do, \<^verbatim>\<open>_getWallpaperInternal\<close>
  returns a wallpaper record (url and the flags isFromCache, isToday, needsUpdate) and never
  throws; with no cache tier and a download that fails, the url is the static local
  default. In every run of the service, the promise a call of \<^verbatim>\<open>getWallpaper\<close> waits for is
  fulfilled with such a record; or its download is in flight and fulfils it however the
  request settles; or the call waits for its first answer, and whatever that is, the
  promise is then fulfilled or a download is in flight that fulfils it.
\<close>

theorem getWallpaper_never_rejects:
  "(\<exists>w s'. getWallpaperInternal e s resolution = (Inr w, s'))
   \<and> (resolution \<noteq> ''custom'' \<and> getSmartCache e s resolution = None
        \<and> downloadFailure e = Some err
      \<longrightarrow> (\<exists>w s'. getWallpaperInternal e s resolution = (Inr w, s')
                   \<and> url w = fallbackImage \<and> \<not> isFromCache w))
   \<and> (\<forall>p \<in> set (calls (run es init)).
        fulfilled (run es init) p
        \<or> (\<exists>i. downloadFulfils (run es init) i p)
        \<or> (\<exists>i < length (tasks (run es init)).
              (\<exists>r sr tk. tasks (run es init) ! i = Called p r sr tk)
              \<and> (\<forall>e'. fulfilled (step e' (LookupSettles i) (run es init)) p
                       \<or> (\<exists>j. downloadFulfils (step e' (LookupSettles i) (run es init)) j p))))"
proof (intro conjI impI ballI)
  show "\<exists>w s'. getWallpaperInternal e s resolution = (Inr w, s')"
    by (rule getWallpaperInternal_ok)
next
  assume a: "resolution \<noteq> ''custom'' \<and> getSmartCache e s resolution = None
        \<and> downloadFailure e = Some err"
  show "\<exists>w s'. getWallpaperInternal e s resolution = (Inr w, s')
                   \<and> url w = fallbackImage \<and> \<not> isFromCache w"
  proof (cases "getWallpaperUrl e resolution = fallbackImage")
    case True
    then have "getWallpaperInternal e s resolution = (Inr localDefault, s)"
      using a getWallpaperInternal_no_cache_fails[of resolution e s err] by simp
    then show ?thesis by (simp add: localDefault_def)
  next
    case False
    then have "getWallpaperInternal e s resolution = (Inr errorWallpaper,
            s\<lparr>requests := requests s @ [downloadRequest e (getWallpaperUrl e resolution)]\<rparr>)"
      using a getWallpaperInternal_no_cache_fails[of resolution e s err] by simp
    then show ?thesis by (simp add: errorWallpaper_def)
  qed
next
  fix p
  let ?s = "run es init"
  assume p: "p \<in> set (calls ?s)"
  have inv: "dedupInv ?s" by (rule dedupInv_reachable)
  show "fulfilled ?s p
        \<or> (\<exists>i. downloadFulfils ?s i p)
        \<or> (\<exists>i < length (tasks ?s).
              (\<exists>r sr tk. tasks ?s ! i = Called p r sr tk)
              \<and> (\<forall>e'. fulfilled (step e' (LookupSettles i) ?s) p
                       \<or> (\<exists>j. downloadFulfils (step e' (LookupSettles i) ?s) j p)))"
    by (rule promise_progress[OF inv p])
qed

text \<open>Offline with an empty store the local default comes back; the first call of a run
  waits for its first answer, and when that has come, for a download that fulfils its
  promise.\<close>

theorem getWallpaper_never_rejects_witness:
  "(\<exists>w s'. getWallpaperInternal offlineEnv init ''1080p'' = (Inr w, s')
        \<and> url w = fallbackImage \<and> \<not> isFromCache w)
   \<and> \<not> fulfilled (step onlineEnv (GetWallpaper ''1080p'') init) 0
   \<and> \<not> fulfilled afterRequest 0
   \<and> (\<exists>j. downloadFulfils afterRequest j 0)"
proof -
  let ?s = "step onlineEnv (GetWallpaper ''1080p'') init"
  have c: "getSmartCache offlineEnv init ''1080p'' = None"
    by (rule getSmartCache_empty) (simp add: init_def)
  have d: "downloadFailure offlineEnv = Some NetworkError"
    by (simp add: downloadFailure_def offlineEnv_def)
  have s: "?s = run [(onlineEnv, GetWallpaper ''1080p'')] init" by simp
  have ar: "step onlineEnv (LookupSettles 0) ?s = afterRequest" by (simp add: afterRequest_def)
  have sc: "?s = init\<lparr>loadingPromises := [(loadingKey ''1080p'', 0)],
       tasks := [Called 0 ''1080p'' True (getTodayCacheKey onlineEnv ''1080p'')], calls := [0], nextPromise := 1\<rparr>"
    by (simp add: afterCall_eq)
  have p: "0 \<in> set (calls ?s)" unfolding sc by simp
  have n1: "\<not> fulfilled ?s 0" unfolding sc by (simp add: fulfilled_def init_def)
  have n2: "\<not> fulfilled afterRequest 0" by (simp add: afterRequest_eq fulfilled_def init_def)
  have n3: "\<not> (\<exists>i. downloadFulfils ?s i 0)"
    unfolding sc by (simp add: downloadFulfils_def init_def less_Suc_eq)
  have "(\<exists>w s'. getWallpaperInternal offlineEnv init ''1080p'' = (Inr w, s')
            \<and> url w = fallbackImage \<and> \<not> isFromCache w)
        \<and> (\<exists>i < length (tasks ?s). (\<exists>r sr tk. tasks ?s ! i = Called 0 r sr tk)
              \<and> (\<forall>e'. fulfilled (step e' (LookupSettles i) ?s) 0
                       \<or> (\<exists>j. downloadFulfils (step e' (LookupSettles i) ?s) j 0)))"
    using getWallpaper_never_rejects[where e = offlineEnv and s = init and resolution = "''1080p''"
        and err = NetworkError and es = "[(onlineEnv, GetWallpaper ''1080p'')]"]
      c d p n1 n3 custom_neq
    unfolding s[symmetric] by blast
  moreover have "length (tasks ?s) = 1" unfolding sc by simp
  ultimately have "fulfilled (step onlineEnv (LookupSettles 0) ?s) 0
                       \<or> (\<exists>j. downloadFulfils (step onlineEnv (LookupSettles 0) ?s) j 0)"
    and "\<exists>w s'. getWallpaperInternal offlineEnv init ''1080p'' = (Inr w, s')
            \<and> url w = fallbackImage \<and> \<not> isFromCache w"
    by (auto simp: less_Suc_eq)
  then show ?thesis using n1 n2 unfolding ar by blast
qed

subsection \<open>A 4k payload below 500 KB\<close>

text \<open>
  C2, as the code has it. A 4k download whose response is not JSON, whose payload is
  non-empty and below 500 KB, and for which a blob URL can be minted, is not written to
  the binary cache: the store is unchanged. The blob URL is returned with
  \<open>isFallback = True\<close>; the caller's record has \<open>needsUpdate = True\<close>; and \<^verbatim>\<open>scheduleRetry\<close> is
  called, in the foreground as in the background: it sets a timer with the backoff delay
  of the attempts made so far when no timer is pending for 4k and fewer than 8 attempts
  have been made, and changes nothing otherwise.
\<close>

theorem small_4k_payload:
  assumes "netResponse e = Inr resp"
    and "\<not> str_includes (contentType resp) ''application/json''"
    and "0 < blob_size (body resp)" and "blob_size (body resp) < 500 * 1024"
    and "createBlobUrl e (body resp) = Inr bu"
  shows "(\<exists>src. downloadAndCache e s u ''4k''
                 = (Inr \<lparr>blobUrl = bu, dl_originalUrl = src, isFallback = True\<rparr>, s)
             \<and> getWallpaperInternal_resume e s ''4k'' u sr fb
                 = (Inr \<lparr>url = bu, isFromCache = False, isToday = True, needsUpdate = True,
                         originalUrl = Some src\<rparr>, scheduleRetry s ''4k'')
             \<and> getWallpaperInternal_settled e s ''4k'' u sr fb
                 = (Inr \<lparr>url = bu, isFromCache = False, isToday = True, needsUpdate = True,
                         originalUrl = Some src\<rparr>, scheduleRetry s ''4k'')
             \<and> updateWallpaperInBackground_settled e s ''4k'' u = scheduleRetry s ''4k'')
     \<and> idb (scheduleRetry s ''4k'') = idb s
     \<and> (map_of (retryTimers s) (retryKey ''4k'') = None \<and> attemptCount s ''4k'' < MAX_RETRY_COUNT
          \<longrightarrow> map_of (retryTimers (scheduleRetry s ''4k'')) (retryKey ''4k'')
                = Some \<lparr>delayMs = backoff (attemptCount s ''4k''),
                        capturedRetryCount = attemptCount s ''4k'', timerResolution = ''4k''\<rparr>)
     \<and> (map_of (retryTimers s) (retryKey ''4k'') \<noteq> None \<or> MAX_RETRY_COUNT \<le> attemptCount s ''4k''
          \<longrightarrow> scheduleRetry s ''4k'' = s)"
proof (intro conjI impI)
  obtain src where d: "downloadAndCache e s u ''4k''
                 = (Inr \<lparr>blobUrl = bu, dl_originalUrl = src, isFallback = True\<rparr>, s)"
    using assms by (simp add: downloadAndCache_def Let_def)
  then show "\<exists>src. downloadAndCache e s u ''4k''
                 = (Inr \<lparr>blobUrl = bu, dl_originalUrl = src, isFallback = True\<rparr>, s)
             \<and> getWallpaperInternal_resume e s ''4k'' u sr fb
                 = (Inr \<lparr>url = bu, isFromCache = False, isToday = True, needsUpdate = True,
                         originalUrl = Some src\<rparr>, scheduleRetry s ''4k'')
             \<and> getWallpaperInternal_settled e s ''4k'' u sr fb
                 = (Inr \<lparr>url = bu, isFromCache = False, isToday = True, needsUpdate = True,
                         originalUrl = Some src\<rparr>, scheduleRetry s ''4k'')
             \<and> updateWallpaperInBackground_settled e s ''4k'' u = scheduleRetry s ''4k''"
    by (simp add: getWallpaperInternal_settled_def getWallpaperInternal_resume_def
        updateWallpaperInBackground_settled_def catchAll_def Let_def)
  show "idb (scheduleRetry s ''4k'') = idb s" by simp
next
  assume "map_of (retryTimers s) (retryKey ''4k'') = None \<and> attemptCount s ''4k'' < MAX_RETRY_COUNT"
  then show "map_of (retryTimers (scheduleRetry s ''4k'')) (retryKey ''4k'')
                = Some \<lparr>delayMs = backoff (attemptCount s ''4k''),
                        capturedRetryCount = attemptCount s ''4k'', timerResolution = ''4k''\<rparr>"
    by (simp add: scheduleRetry_cases MAX_RETRY_COUNT_def backoff_def update_conv')
next
  assume "map_of (retryTimers s) (retryKey ''4k'') \<noteq> None \<or> MAX_RETRY_COUNT \<le> attemptCount s ''4k''"
  then show "scheduleRetry s ''4k'' = s"
    by (auto simp: scheduleRetry_cases MAX_RETRY_COUNT_def)
qed

text \<open>C2 fails as stated: after a 4k download of 100 KB the store has no entry under today's
  key.\<close>

theorem small_4k_not_cached:
  "map_of (idb (snd (downloadAndCache smallEnv init (getWallpaperUrl smallEnv ''4k'') ''4k'')))
     (getTodayCacheKey smallEnv ''4k'') = None
   \<and> (\<exists>d. fst (downloadAndCache smallEnv init (getWallpaperUrl smallEnv ''4k'') ''4k'') = Inr d
            \<and> isFallback d)"
proof -
  have "\<exists>src. downloadAndCache smallEnv init (getWallpaperUrl smallEnv ''4k'') ''4k''
          = (Inr \<lparr>blobUrl = ''blob:wallpaper'', dl_originalUrl = src, isFallback = True\<rparr>, init)"
    using jpeg_not_json by (simp add: downloadAndCache_def smallEnv_response Let_def)
  then show ?thesis by (auto simp: init_def)
qed

text \<open>The same download, through the theorem: nothing is stored, and the first retry is
  due in 30 seconds; a second such download while that timer is pending changes nothing.\<close>

theorem small_4k_payload_witness:
  "(\<exists>src. downloadAndCache smallEnv init [] ''4k''
                 = (Inr \<lparr>blobUrl = ''blob:wallpaper'', dl_originalUrl = src, isFallback = True\<rparr>, init))
   \<and> idb (updateWallpaperInBackground_settled smallEnv init ''4k'' []) = []
   \<and> map_of (retryTimers (updateWallpaperInBackground_settled smallEnv init ''4k'' []))
        (retryKey ''4k'')
       = Some \<lparr>delayMs = 30000, capturedRetryCount = 0, timerResolution = ''4k''\<rparr>
   \<and> updateWallpaperInBackground_settled smallEnv
        (updateWallpaperInBackground_settled smallEnv init ''4k'' []) ''4k'' []
       = updateWallpaperInBackground_settled smallEnv init ''4k'' []"
proof -
  let ?s1 = "updateWallpaperInBackground_settled smallEnv init ''4k'' []"
  have a: "\<not> str_includes (contentType \<lparr>contentType = ''image/jpeg'',
          wallpaperSource = ''https://www.bing.com/th?id=OHR.jpg'',
          body = ImageBlob (100 * 1024) ''jpeg''\<rparr>) ''application/json''"
    using jpeg_not_json by simp
  have b: "map_of (retryTimers init) (retryKey ''4k'') = None \<and> attemptCount init ''4k'' < MAX_RETRY_COUNT"
    "attemptCount init ''4k'' = 0" "idb init = []"
    by (simp_all add: init_def attemptCount_def MAX_RETRY_COUNT_def)
  have first: "(\<exists>src. downloadAndCache smallEnv init [] ''4k''
                 = (Inr \<lparr>blobUrl = ''blob:wallpaper'', dl_originalUrl = src, isFallback = True\<rparr>, init))
     \<and> idb ?s1 = []
     \<and> map_of (retryTimers ?s1) (retryKey ''4k'')
       = Some \<lparr>delayMs = 30000, capturedRetryCount = 0, timerResolution = ''4k''\<rparr>"
    using small_4k_payload[OF smallEnv_response(1) a _ _ smallEnv_response(2), of init "[]" True None] b
    by (auto simp: backoff_def)
  then have pending: "map_of (retryTimers ?s1) (retryKey ''4k'') \<noteq> None" by simp
  have "updateWallpaperInBackground_settled smallEnv ?s1 ''4k'' [] = ?s1"
    using small_4k_payload[OF smallEnv_response(1) a _ _ smallEnv_response(2), of ?s1 "[]" True None]
      pending
    by (auto simp del: not_None_eq)
  then show ?thesis using first by simp
qed

subsection \<open>Downloads in flight per resolution\<close>

lemma distinct_count_le1: "distinct (map f xs) \<Longrightarrow> length (filter (\<lambda>x. f x = a) xs) \<le> 1"
proof (induction xs)
  case Nil
  then show ?case by simp
next
  case (Cons x xs)
  show ?case
  proof (cases "f x = a")
    case True
    then have "a \<notin> f ` set xs" using Cons.prems by auto
    then have "filter (\<lambda>x. f x = a) xs = []" by (auto simp: filter_empty_conv)
    then show ?thesis using True by simp
  next
    case False
    then show ?thesis using Cons by simp
  qed
qed

text \<open>
  C3, as the code has it. For every resolution at most one operation of \<^verbatim>\<open>getWallpaper\<close>,
  and so at most one download started by it, is in progress at any point of any run. The background updates
  (\<^verbatim>\<open>updateWallpaperInBackground\<close>, started by a stale cache read, a visibility change, the
  daily check or a retry timer) go through no deduplication.
\<close>

theorem foreground_single_flight: "outstandingForeground (run es init) resolution \<le> 1"
proof -
  have "distinct (map task_resolution (inFlight (run es init)))"
    using dedupInv_reachable[of es] by (simp add: dedupInv_def)
  then show ?thesis unfolding outstandingForeground_def by (rule distinct_count_le1)
qed

lemma onPageVisibleLoop_unmarked:
  assumes "getWallpaperUrl e ''x'' \<noteq> fallbackImage"
  shows "localStorage s = [] \<Longrightarrow>
     tasks (onPageVisibleLoop e rs s) = tasks s @ map (\<lambda>r. Background r (getWallpaperUrl e r)) rs
     \<and> localStorage (onPageVisibleLoop e rs s) = []"
proof (induction rs arbitrary: s)
  case Nil
  then show ?case by simp
next
  case (Cons r rs)
  have u: "getWallpaperUrl e r \<noteq> fallbackImage"
    using assms by (simp add: getWallpaperUrl_configured)
  let ?s1 = "updateWallpaperInBackground e s r"
  have t1: "tasks ?s1 = tasks s @ [Background r (getWallpaperUrl e r)]" and l1: "localStorage ?s1 = []"
    using u Cons.prems by (simp_all add: updateWallpaperInBackground_def Let_def)
  show ?case using Cons.IH[OF l1] t1 Cons.prems by simp
qed

text \<open>
  C3 fails as stated: the page becomes visible twice before the downloads settle, and two
  downloads of 1080p are in flight.
\<close>

theorem two_background_downloads:
  "outstandingDownloads (run [(offlineEnv, PageVisible), (offlineEnv, PageVisible)] init) ''1080p'' = 2"
proof -
  let ?s1 = "onPageVisible offlineEnv init"
  have a: "tasks ?s1 = map (\<lambda>r. Background r (getWallpaperUrl offlineEnv r)) resolutions"
    and b: "localStorage ?s1 = []"
    using onPageVisibleLoop_unmarked[OF offlineEnv_configured, of init resolutions]
    by (simp_all add: onPageVisible_def init_def)
  have c: "tasks (onPageVisible offlineEnv ?s1)
           = map (\<lambda>r. Background r (getWallpaperUrl offlineEnv r)) (resolutions @ resolutions)"
    using onPageVisibleLoop_unmarked[OF offlineEnv_configured, OF b, of resolutions] a
    by (simp add: onPageVisible_def)
  show ?thesis
    by (simp add: outstandingDownloads_def c resolutions_def)
qed

subsection \<open>Success marker and cache entry\<close>

lemma cacheKeyFor_inj [simp]: "(cacheKeyFor r d = cacheKeyFor r d') = (d = d')"
  by (simp add: cacheKeyFor_def)

lemma metadata_key_neq [simp]: "k @ ''-metadata'' \<noteq> k"
  by simp

lemma yesterday_metadata_neq:
  "length (yesterday e) = length (today e) \<Longrightarrow>
   cacheKeyFor r (yesterday e) @ ''-metadata'' \<noteq> cacheKeyFor r (today e)"
proof
  assume l: "length (yesterday e) = length (today e)"
    and "cacheKeyFor r (yesterday e) @ ''-metadata'' = cacheKeyFor r (today e)"
  then have "length (cacheKeyFor r (yesterday e) @ ''-metadata'') = length (cacheKeyFor r (today e))"
    by simp
  then show False using l by (simp add: cacheKeyFor_def)
qed

lemma written_entry:
  assumes "\<not> idbWriteFails e"
  shows "map_of (idb (idb_set e (idb_set e s k v) (k @ ''-metadata'') m)) k = Some v"
  using assms by (simp add: idb_set_def update_conv')

lemma resume_marker:
  assumes r: "getWallpaperInternal_resume e s r u sr fb = (x, s')"
    and wf: "\<not> idbWriteFails e" "datesWellFormed e"
  shows "marker s' res = marker s res
         \<or> (res = r \<and> marker s' res = Some (today e) \<and> freshEntry e s' r)"
proof (cases "downloadAndCache e s u r")
  case (Pair y s1)
  show ?thesis
  proof (cases y)
    case (Inl err)
    then have "s1 = s" using Pair downloadAndCache_Inl by blast
    then have "s' = s \<or> s' = scheduleRetry s r"
      using r Pair Inl by (auto simp: getWallpaperInternal_resume_def split: option.splits)
    then show ?thesis by auto
  next
    case (Inr d)
    from downloadAndCache_Inr[of e s u r d s1] Pair Inr
    obtain resp where resp: "netResponse e = Inr resp" "blob_size (body resp) \<noteq> 0"
      "isFallback d = (r = ''4k'' \<and> blob_size (body resp) < 500 * 1024)"
      "isFallback d \<longrightarrow> s1 = s"
      "\<not> isFallback d \<longrightarrow>
          s1 = idb_set e (idb_set e s (getTodayCacheKey e r) (body resp))
                 (getTodayCacheKey e r @ ''-metadata'') (MetadataBlob (dl_originalUrl d))"
      by blast
    show ?thesis
    proof (cases "isFallback d")
      case True
      then have "s' = scheduleRetry s r"
        using r Pair Inr resp(4) by (simp add: getWallpaperInternal_resume_def Let_def)
      then show ?thesis by simp
    next
      case False
      let ?s2 = "markUpdateSuccess e s1 r"
      have e1: "map_of (idb s1) (cacheKeyFor r (today e)) = Some (body resp)"
        using resp(5) False wf(1) written_entry[of e s "getTodayCacheKey e r"]
        by (simp add: getTodayCacheKey_def)
      have m1: "marker s1 res = marker s res"
        using resp(5) False by (simp add: marker_def)
      have ny: "cacheKeyFor r (today e) \<noteq> cacheKeyFor r (yesterday e)"
        using wf(2) by (auto simp: datesWellFormed_def)
      have nm: "cacheKeyFor r (today e) \<noteq> cacheKeyFor r (yesterday e) @ ''-metadata''"
        using wf(2) yesterday_metadata_neq[of e r] by (auto simp: datesWellFormed_def)
      have key: "marker s' res = marker ?s2 res
                 \<and> map_of (idb s') (cacheKeyFor r (today e)) = map_of (idb ?s2) (cacheKeyFor r (today e))"
      proof (cases sr)
        case False
        then have "s' = ?s2" using r Pair Inr \<open>\<not> isFallback d\<close>
          by (simp add: getWallpaperInternal_resume_def Let_def)
        then show ?thesis by simp
      next
        case True
        show ?thesis
        proof (cases "idb_delete e ?s2 (getYesterdayCacheKey e r)")
          case (Inl err)
          then have "s' = ?s2 \<or> s' = scheduleRetry ?s2 r"
            using r Pair Inr \<open>\<not> isFallback d\<close> True
            by (auto simp: getWallpaperInternal_resume_def Let_def split: option.splits)
          then show ?thesis by auto
        next
          case (Inr s3)
          note d3 = this
          have a3: "marker s3 res = marker ?s2 res"
            and b3: "map_of (idb s3) (cacheKeyFor r (today e)) = map_of (idb ?s2) (cacheKeyFor r (today e))"
            using marker_idb_delete[OF d3] deleted_other[OF d3, of "cacheKeyFor r (today e)"] ny
            by (simp_all add: getYesterdayCacheKey_def)
          show ?thesis
          proof (cases "idb_delete e s3 (getYesterdayCacheKey e r @ ''-metadata'')")
            case (Inl err)
            then have "s' = s3 \<or> s' = scheduleRetry s3 r"
              using r Pair \<open>y = Inr d\<close> \<open>\<not> isFallback d\<close> True d3
              by (auto simp: getWallpaperInternal_resume_def Let_def split: option.splits)
            then show ?thesis using a3 b3 by auto
          next
            case (Inr s4)
            note d4 = this
            have "s' = s4"
              using r Pair \<open>y = Inr d\<close> \<open>\<not> isFallback d\<close> True d3 d4
              by (simp add: getWallpaperInternal_resume_def Let_def)
            then show ?thesis
              using a3 b3 marker_idb_delete[OF d4] deleted_other[OF d4, of "cacheKeyFor r (today e)"] nm
              by (simp add: getYesterdayCacheKey_def)
          qed
        qed
      qed
      show ?thesis
      proof (cases "res = r")
        case True
        have "freshEntry e s' r"
          using key e1 resp False by (simp add: freshEntry_def)
        then show ?thesis using True key by (simp add: marker_markUpdateSuccess)
      next
        case False
        then show ?thesis using key m1 by (simp add: marker_markUpdateSuccess)
      qed
    qed
  qed
qed

lemma background_marker:
  assumes wf: "\<not> idbWriteFails e"
  shows "marker (updateWallpaperInBackground_settled e s r u) res = marker s res
         \<or> (res = r \<and> marker (updateWallpaperInBackground_settled e s r u) res = Some (today e)
             \<and> freshEntry e (updateWallpaperInBackground_settled e s r u) r)"
proof (cases "downloadAndCache e s u r")
  case (Pair y s1)
  show ?thesis
  proof (cases y)
    case (Inl err)
    then have "s1 = s" using Pair downloadAndCache_Inl by blast
    then show ?thesis using Pair Inl by (simp add: updateWallpaperInBackground_settled_def)
  next
    case (Inr d)
    from downloadAndCache_Inr[of e s u r d s1] Pair Inr
    obtain resp where resp: "netResponse e = Inr resp" "blob_size (body resp) \<noteq> 0"
      "isFallback d = (r = ''4k'' \<and> blob_size (body resp) < 500 * 1024)"
      "isFallback d \<longrightarrow> s1 = s"
      "\<not> isFallback d \<longrightarrow>
          s1 = idb_set e (idb_set e s (getTodayCacheKey e r) (body resp))
                 (getTodayCacheKey e r @ ''-metadata'') (MetadataBlob (dl_originalUrl d))"
      by blast
    show ?thesis
    proof (cases "isFallback d")
      case True
      then show ?thesis using Pair Inr resp(4)
        by (simp add: updateWallpaperInBackground_settled_def)
    next
      case False
      have m1: "marker s1 res = marker s res"
        using resp(5) False by (simp add: marker_def)
      show ?thesis
      proof (cases "blobUrl d \<noteq> []")
        case False
        then have "updateWallpaperInBackground_settled e s r u = s1"
          using Pair Inr \<open>\<not> isFallback d\<close> by (simp add: updateWallpaperInBackground_settled_def)
        then show ?thesis using m1 by simp
      next
        case True
        then have eq: "updateWallpaperInBackground_settled e s r u = markUpdateSuccess e s1 r"
          using Pair Inr False by (simp add: updateWallpaperInBackground_settled_def)
        have e1: "map_of (idb s1) (cacheKeyFor r (today e)) = Some (body resp)"
          using resp(5) False wf written_entry[of e s "getTodayCacheKey e r"]
          by (simp add: getTodayCacheKey_def)
        show ?thesis
        proof (cases "res = r")
          case True
          have "freshEntry e (markUpdateSuccess e s1 r) r"
            using e1 resp False by (simp add: freshEntry_def)
          then show ?thesis unfolding eq using True by (simp add: marker_markUpdateSuccess)
        next
          case False
          then show ?thesis unfolding eq using m1 by (simp add: marker_markUpdateSuccess)
        qed
      qed
    qed
  qed
qed

lemma downloadSettles_marker:
  assumes wf: "\<not> idbWriteFails e" "datesWellFormed e"
  shows "marker (downloadSettles e s i) res = marker s res
         \<or> (marker (downloadSettles e s i) res = Some (today e)
             \<and> freshEntry e (downloadSettles e s i) res)"
proof (cases "i < length (tasks s)")
  case False
  then show ?thesis by (simp add: downloadSettles_def)
next
  case True
  let ?s0 = "s\<lparr>tasks := take i (tasks s) @ drop (Suc i) (tasks s)\<rparr>"
  have m0: "marker ?s0 res = marker s res" by (simp add: marker_def)
  show ?thesis
  proof (cases "tasks s ! i")
    case (Called p r sr tk)
    then show ?thesis using True by (simp add: downloadSettles_def Let_def)
  next
    case (Background r u)
    then have eq: "downloadSettles e s i = updateWallpaperInBackground_settled e ?s0 r u"
      using True by (simp add: downloadSettles_def Let_def)
    show ?thesis unfolding eq using background_marker[OF wf(1), of ?s0 r u res] m0 by auto
  next
    case (Foreground p r u sr fb)
    obtain x s1 where st: "getWallpaperInternal_resume e ?s0 r u sr fb = (x, s1)"
      by (cases "getWallpaperInternal_resume e ?s0 r u sr fb")
    have "\<exists>w. getWallpaperInternal_settled e ?s0 r u sr fb = (Inr w, s1)"
      using st by (cases x) (simp_all add: getWallpaperInternal_settled_def catchAll_def)
    then obtain w where w: "getWallpaperInternal_settled e ?s0 r u sr fb = (Inr w, s1)"
      by blast
    have eq: "downloadSettles e s i =
        s1\<lparr>settled := settled s1 @ [(p, Inr w)],
           loadingPromises := AList.delete (loadingKey r) (loadingPromises s1)\<rparr>"
      using True Foreground w by (simp add: downloadSettles_def Let_def)
    have a: "marker (downloadSettles e s i) res = marker s1 res"
      unfolding eq by (simp add: marker_def)
    have b: "freshEntry e (downloadSettles e s i) res = freshEntry e s1 res"
      unfolding eq by (rule freshEntry_idb) simp
    show ?thesis using resume_marker[OF st wf, of res] a b m0 by auto
  qed
qed

text \<open>
  C4, as the code has it. Whenever a step of the service changes the SuccessMarker of a
  resolution, the new value is the current local date, and (the store accepting writes)
  that step has just stored a non-fallback payload under the resolution and that date.
  Nothing withdraws a marker when its entry is deleted later.
\<close>

theorem marker_set_with_entry:
  assumes "\<not> idbWriteFails e" and "datesWellFormed e"
    and "marker (step e ev s) resolution \<noteq> marker s resolution"
  shows "marker (step e ev s) resolution = Some (today e) \<and> freshEntry e (step e ev s) resolution"
proof (cases ev)
  case (GetWallpaper r)
  then show ?thesis using assms(3) by (simp add: marker_def)
next
  case (LookupSettles i)
  then show ?thesis using assms(3) by (simp add: marker_def)
next
  case (DownloadSettles i)
  then show ?thesis using downloadSettles_marker[OF assms(1,2), of s i resolution] assms(3) by auto
next
  case (RetryTimerFires r)
  then show ?thesis using assms(3) by (simp add: marker_def)
next
  case PageVisible
  then show ?thesis using assms(3) by (simp add: marker_def onPageVisible_def)
next
  case DailyCheck
  then show ?thesis using assms(3) by simp
next
  case CleanupExpiredCache
  then show ?thesis using assms(3) by (simp add: marker_def)
next
  case (ClearCacheForDate r d)
  then show ?thesis using assms(3) by (simp add: marker_def)
qed

text \<open>
  C4 fails as stated: a download succeeds on 10 May, the cleanup runs on 15 May; the
  marker still holds 10 May and the entry of 10 May is gone.
\<close>

theorem marker_without_entry:
  "marker (run [(onlineEnv, GetWallpaper ''1080p''), (onlineEnv, LookupSettles 0),
      (onlineEnv, DownloadSettles 0),
                (laterEnv, CleanupExpiredCache)] init) ''1080p'' = Some ''2024-05-10''
   \<and> map_of (idb (run [(onlineEnv, GetWallpaper ''1080p''), (onlineEnv, LookupSettles 0),
      (onlineEnv, DownloadSettles 0),
                (laterEnv, CleanupExpiredCache)] init)) (cacheKeyFor ''1080p'' ''2024-05-10'') = None"
proof -
  have r: "run [(onlineEnv, GetWallpaper ''1080p''), (onlineEnv, LookupSettles 0),
      (onlineEnv, DownloadSettles 0),
                (laterEnv, CleanupExpiredCache)] init = cleanupExpiredCache laterEnv afterDownload"
    by (simp add: afterDownload_def afterRequest_def)
  have m: "marker (cleanupExpiredCache laterEnv afterDownload) ''1080p'' = Some ''2024-05-10''"
    by (simp add: marker_def afterDownload_stores)
  have i: "idb (cleanupExpiredCache laterEnv afterDownload) = []"
    by (simp add: cleanupExpiredCache_def idb_getAllKeys_def idb_delete_def laterEnv_fields
        afterDownload_stores cacheKeyFor_def startsWith_def isDigit_def Let_def)
  show ?thesis unfolding r using m i by simp
qed

text \<open>The download of 10 May sets the marker and has stored its payload.\<close>

theorem marker_set_with_entry_witness:
  "marker (step onlineEnv (DownloadSettles 0)
          (run [(onlineEnv, GetWallpaper ''1080p''), (onlineEnv, LookupSettles 0)] init)) ''1080p''
     = Some ''2024-05-10''
   \<and> freshEntry onlineEnv
        (step onlineEnv (DownloadSettles 0)
          (run [(onlineEnv, GetWallpaper ''1080p''), (onlineEnv, LookupSettles 0)] init)) ''1080p''"
proof -
  have a: "marker afterRequest ''1080p'' = None"
    by (simp add: marker_def afterRequest_eq init_def)
  have b: "marker afterDownload ''1080p'' = Some ''2024-05-10''"
    by (simp add: marker_def afterDownload_stores)
  have c: "marker (step onlineEnv (DownloadSettles 0) afterRequest) ''1080p'' \<noteq> marker afterRequest ''1080p''"
    using a b by (simp add: afterDownload_def)
  have w: "\<not> idbWriteFails onlineEnv" by (simp add: onlineEnv_fields)
  show ?thesis
    using marker_set_with_entry[OF w onlineEnv_datesWellFormed c]
    by (simp add: afterRequest_def onlineEnv_fields)
qed

subsection \<open>Cache keys and dates\<close>

lemma isoDateString_chars:
  assumes "isoDateString d"
  obtains y1 y2 y3 y4 m1 m2 d1 d2 where
    "d = [y1, y2, y3, y4, CHR ''-'', m1, m2, CHR ''-'', d1, d2]"
    "isDigit y1" "isDigit y2" "isDigit y3" "isDigit y4" "isDigit m1" "isDigit m2"
    "isDigit d1" "isDigit d2"
proof -
  from assms have l: "length d = 10" and a: "dateAtStart d" by (simp_all add: isoDateString_def)
  from l obtain y1 y2 y3 y4 s1 m1 m2 s2 d1 d2 where
    d: "d = [y1, y2, y3, y4, s1, m1, m2, s2, d1, d2]"
    by (auto simp: length_Suc_conv eval_nat_numeral)
  with a show ?thesis using that by simp
qed

lemma not_digits:
  "\<not> isDigit CHR ''p''" "\<not> isDigit CHR ''k''" "\<not> isDigit CHR ''m''" "\<not> isDigit CHR ''-''"
  by (simp_all add: isDigit_def)

lemma digit_neq:
  "isDigit c \<Longrightarrow> (c = CHR ''p'') = False" "isDigit c \<Longrightarrow> (c = CHR ''k'') = False"
  "isDigit c \<Longrightarrow> (c = CHR ''m'') = False" "isDigit c \<Longrightarrow> (c = CHR ''-'') = False"
  using not_digits by auto

lemma resolutions_cases:
  assumes "r \<in> set resolutions"
  obtains "r = ''1080p''" | "r = ''720p''" | "r = ''4k''" | "r = ''mobile''"
  using assms by (auto simp: resolutions_def)

lemma includes_category_pairs:
  assumes "isoDateString d"
  shows
    "str_includes (cacheKeyFor ''1080p'' d) ''1080p'' = (''1080p'' = ''1080p'')"
    "str_includes (cacheKeyFor ''1080p'' d) ''720p'' = (''1080p'' = ''720p'')"
    "str_includes (cacheKeyFor ''1080p'' d) ''4k'' = (''1080p'' = ''4k'')"
    "str_includes (cacheKeyFor ''1080p'' d) ''mobile'' = (''1080p'' = ''mobile'')"
    "str_includes (cacheKeyFor ''720p'' d) ''1080p'' = (''720p'' = ''1080p'')"
    "str_includes (cacheKeyFor ''720p'' d) ''720p'' = (''720p'' = ''720p'')"
    "str_includes (cacheKeyFor ''720p'' d) ''4k'' = (''720p'' = ''4k'')"
    "str_includes (cacheKeyFor ''720p'' d) ''mobile'' = (''720p'' = ''mobile'')"
    "str_includes (cacheKeyFor ''4k'' d) ''1080p'' = (''4k'' = ''1080p'')"
    "str_includes (cacheKeyFor ''4k'' d) ''720p'' = (''4k'' = ''720p'')"
    "str_includes (cacheKeyFor ''4k'' d) ''4k'' = (''4k'' = ''4k'')"
    "str_includes (cacheKeyFor ''4k'' d) ''mobile'' = (''4k'' = ''mobile'')"
    "str_includes (cacheKeyFor ''mobile'' d) ''1080p'' = (''mobile'' = ''1080p'')"
    "str_includes (cacheKeyFor ''mobile'' d) ''720p'' = (''mobile'' = ''720p'')"
    "str_includes (cacheKeyFor ''mobile'' d) ''4k'' = (''mobile'' = ''4k'')"
    "str_includes (cacheKeyFor ''mobile'' d) ''mobile'' = (''mobile'' = ''mobile'')"
  by (insert assms) ((erule isoDateString_chars, simp add: cacheKeyFor_def startsWith_def digit_neq)+)

lemma no_metadata_pairs:
  assumes "isoDateString d"
  shows
    "\<not> str_includes (cacheKeyFor ''1080p'' d) ''-metadata''"
    "\<not> str_includes (cacheKeyFor ''720p'' d) ''-metadata''"
    "\<not> str_includes (cacheKeyFor ''4k'' d) ''-metadata''"
    "\<not> str_includes (cacheKeyFor ''mobile'' d) ''-metadata''"
  by (insert assms) ((erule isoDateString_chars, simp add: cacheKeyFor_def startsWith_def digit_neq)+)

lemma matchDate_pairs:
  assumes "isoDateString d"
  shows
    "matchDate (cacheKeyFor ''1080p'' d @ rest) = Some d"
    "matchDate (cacheKeyFor ''720p'' d @ rest) = Some d"
    "matchDate (cacheKeyFor ''4k'' d @ rest) = Some d"
    "matchDate (cacheKeyFor ''mobile'' d @ rest) = Some d"
  by (insert assms) ((erule isoDateString_chars, simp add: cacheKeyFor_def digit_neq not_digits)+)

lemma includes_category:
  assumes d: "isoDateString d" and r: "r \<in> set resolutions" and c: "c \<in> set resolutions"
  shows "str_includes (cacheKeyFor r d) c = (r = c)"
  using r
proof (cases rule: resolutions_cases)
  case 1
  note r1 = this
  show ?thesis using c
  proof (cases rule: resolutions_cases)
    case 1
    show ?thesis unfolding r1 1 by (rule includes_category_pairs(1)[OF d])
  next
    case 2
    show ?thesis unfolding r1 2 by (rule includes_category_pairs(2)[OF d])
  next
    case 3
    show ?thesis unfolding r1 3 by (rule includes_category_pairs(3)[OF d])
  next
    case 4
    show ?thesis unfolding r1 4 by (rule includes_category_pairs(4)[OF d])
  qed
next
  case 2
  note r2 = this
  show ?thesis using c
  proof (cases rule: resolutions_cases)
    case 1
    show ?thesis unfolding r2 1 by (rule includes_category_pairs(5)[OF d])
  next
    case 2
    show ?thesis unfolding r2 2 by (rule includes_category_pairs(6)[OF d])
  next
    case 3
    show ?thesis unfolding r2 3 by (rule includes_category_pairs(7)[OF d])
  next
    case 4
    show ?thesis unfolding r2 4 by (rule includes_category_pairs(8)[OF d])
  qed
next
  case 3
  note r3 = this
  show ?thesis using c
  proof (cases rule: resolutions_cases)
    case 1
    show ?thesis unfolding r3 1 by (rule includes_category_pairs(9)[OF d])
  next
    case 2
    show ?thesis unfolding r3 2 by (rule includes_category_pairs(10)[OF d])
  next
    case 3
    show ?thesis unfolding r3 3 by (rule includes_category_pairs(11)[OF d])
  next
    case 4
    show ?thesis unfolding r3 4 by (rule includes_category_pairs(12)[OF d])
  qed
next
  case 4
  note r4 = this
  show ?thesis using c
  proof (cases rule: resolutions_cases)
    case 1
    show ?thesis unfolding r4 1 by (rule includes_category_pairs(13)[OF d])
  next
    case 2
    show ?thesis unfolding r4 2 by (rule includes_category_pairs(14)[OF d])
  next
    case 3
    show ?thesis unfolding r4 3 by (rule includes_category_pairs(15)[OF d])
  next
    case 4
    show ?thesis unfolding r4 4 by (rule includes_category_pairs(16)[OF d])
  qed
qed

lemma no_metadata_in_entry_key:
  assumes d: "isoDateString d" and r: "r \<in> set resolutions"
  shows "\<not> str_includes (cacheKeyFor r d) ''-metadata''"
  using r
proof (cases rule: resolutions_cases)
  case 1
  show ?thesis unfolding 1 by (rule no_metadata_pairs(1)[OF d])
next
  case 2
  show ?thesis unfolding 2 by (rule no_metadata_pairs(2)[OF d])
next
  case 3
  show ?thesis unfolding 3 by (rule no_metadata_pairs(3)[OF d])
next
  case 4
  show ?thesis unfolding 4 by (rule no_metadata_pairs(4)[OF d])
qed

lemma matchDate_entry_key:
  assumes d: "isoDateString d" and r: "r \<in> set resolutions"
  shows "matchDate (cacheKeyFor r d @ rest) = Some d"
  using r
proof (cases rule: resolutions_cases)
  case 1
  show ?thesis unfolding 1 by (rule matchDate_pairs(1)[OF d])
next
  case 2
  show ?thesis unfolding 2 by (rule matchDate_pairs(2)[OF d])
next
  case 3
  show ?thesis unfolding 3 by (rule matchDate_pairs(3)[OF d])
next
  case 4
  show ?thesis unfolding 4 by (rule matchDate_pairs(4)[OF d])
qed

lemma str_includes_suffix: "str_includes (xs @ p) p"
  by (induction xs) (simp_all add: startsWith_def, cases p, simp_all add: startsWith_def)

lemma category_prefix:
  assumes r: "r \<in> set resolutions" and c: "c \<in> set resolutions"
  shows "startsWith (cacheKeyFor r d @ rest) (cacheKeyFor c []) = (r = c)"
  using r
proof (cases rule: resolutions_cases)
  case 1
  show ?thesis using c
    by (cases rule: resolutions_cases) (simp_all add: 1 cacheKeyFor_def startsWith_def)
next
  case 2
  show ?thesis using c
    by (cases rule: resolutions_cases) (simp_all add: 2 cacheKeyFor_def startsWith_def)
next
  case 3
  show ?thesis using c
    by (cases rule: resolutions_cases) (simp_all add: 3 cacheKeyFor_def startsWith_def)
next
  case 4
  show ?thesis using c
    by (cases rule: resolutions_cases) (simp_all add: 4 cacheKeyFor_def startsWith_def)
qed

lemma drop_category_prefix: "drop (length (cacheKeyFor c [])) (cacheKeyFor c d @ rest) = d @ rest"
  by (simp add: cacheKeyFor_def)

lemma startsWith_prefix: "startsWith (cacheKeyFor r d) ''wallpaper-optimized:''"
  by (simp add: cacheKeyFor_def startsWith_def)

lemma startsWith_prefix_meta: "startsWith (cacheKeyFor r d @ rest) ''wallpaper-optimized:''"
  by (simp add: cacheKeyFor_def startsWith_def)

lemma selected_key:
  assumes wf: "keysWellFormed s" and c: "c \<in> set resolutions" and k: "kv \<in> set (idb s)"
  shows "(startsWith (fst kv) ''wallpaper-optimized:'' \<and> str_includes (fst kv) c
          \<and> \<not> str_includes (fst kv) ''-metadata'')
         = (startsWith (fst kv) (cacheKeyFor c [])
            \<and> isoDateString (drop (length (cacheKeyFor c [])) (fst kv)))"
proof -
  from wf k obtain r d where r: "r \<in> set resolutions" and d: "isoDateString d"
    and key: "fst kv = cacheKeyFor r d \<or> fst kv = cacheKeyFor r d @ ''-metadata''"
    unfolding keysWellFormed_def by blast
  from key show ?thesis
  proof
    assume e: "fst kv = cacheKeyFor r d"
    have "startsWith (cacheKeyFor r d) (cacheKeyFor c []) = (r = c)"
      using category_prefix[OF r c, of d "[]"] by simp
    moreover have "r = c \<Longrightarrow> drop (length (cacheKeyFor c [])) (cacheKeyFor r d) = d"
      using drop_category_prefix[of c d "[]"] by simp
    ultimately show ?thesis
      using e d includes_category[OF d r c] no_metadata_in_entry_key[OF d r] startsWith_prefix
      by auto
  next
    assume e: "fst kv = cacheKeyFor r d @ ''-metadata''"
    have l: "length d = 10" using d by (simp add: isoDateString_def)
    have "\<not> isoDateString (d @ ''-metadata'')" using l by (simp add: isoDateString_def)
    then have "r = c \<Longrightarrow> \<not> isoDateString (drop (length (cacheKeyFor c [])) (fst kv))"
      using e drop_category_prefix[of c d "''-metadata''"] by simp
    moreover have "startsWith (fst kv) (cacheKeyFor c []) = (r = c)"
      using e category_prefix[OF r c] by simp
    ultimately show ?thesis using e str_includes_suffix[of "cacheKeyFor r d" "''-metadata''"]
      by auto
  qed
qed

lemma rebuild_key:
  assumes "startsWith key (cacheKeyFor c [])"
  shows "cacheKeyFor c (drop (length (cacheKeyFor c [])) key) = key"
proof -
  have "take (length (cacheKeyFor c [])) key = cacheKeyFor c []"
    using assms by (simp add: startsWith_def)
  then have "cacheKeyFor c [] @ drop (length (cacheKeyFor c [])) key = key"
    using append_take_drop_id[of "length (cacheKeyFor c [])" key] by simp
  then show ?thesis by (simp add: cacheKeyFor_def)
qed

lemma dated_keys:
  "filter (\<lambda>key. startsWith key (cacheKeyFor c [])
                  \<and> isoDateString (drop (length (cacheKeyFor c [])) key)) ks
   = map (cacheKeyFor c)
       (filter isoDateString
          (map (drop (length (cacheKeyFor c [])))
             (filter (\<lambda>key. startsWith key (cacheKeyFor c [])) ks)))"
proof (induction ks)
  case Nil
  then show ?case by simp
next
  case (Cons k ks)
  show ?case
  proof (cases "startsWith k (cacheKeyFor c [])")
    case True
    then show ?thesis using Cons rebuild_key[OF True] by simp
  next
    case False
    then show ?thesis using Cons by simp
  qed
qed

lemma wallpaperKeysOf_dates:
  assumes wf: "keysWellFormed s" and c: "c \<in> set resolutions"
  shows "wallpaperKeysOf c (map fst (idb s)) = map (cacheKeyFor c) (storedDates s c)"
proof -
  have eqv: "\<forall>key \<in> set (map fst (idb s)).
     (startsWith key ''wallpaper-optimized:'' \<and> str_includes key c
          \<and> \<not> str_includes key ''-metadata'')
     = (startsWith key (cacheKeyFor c [])
            \<and> isoDateString (drop (length (cacheKeyFor c [])) key))"
  proof
    fix key assume "key \<in> set (map fst (idb s))"
    then obtain kv where kv: "kv \<in> set (idb s)" "key = fst kv" by auto
    show "(startsWith key ''wallpaper-optimized:'' \<and> str_includes key c
          \<and> \<not> str_includes key ''-metadata'')
     = (startsWith key (cacheKeyFor c [])
            \<and> isoDateString (drop (length (cacheKeyFor c [])) key))"
      unfolding kv(2) by (rule selected_key[OF wf c kv(1)])
  qed
  have "wallpaperKeysOf c (map fst (idb s))
        = filter (\<lambda>key. startsWith key (cacheKeyFor c [])
                  \<and> isoDateString (drop (length (cacheKeyFor c [])) key)) (map fst (idb s))"
    unfolding wallpaperKeysOf_def
  proof (rule filter_cong[OF refl])
    fix x assume "x \<in> set (map fst (idb s))"
    then show "(startsWith x ''wallpaper-optimized:'' \<and> str_includes x c
          \<and> \<not> str_includes x ''-metadata'')
     = (startsWith x (cacheKeyFor c [])
            \<and> isoDateString (drop (length (cacheKeyFor c [])) x))"
      using eqv by blast
  qed
  then show ?thesis unfolding storedDates_def by (simp only: dated_keys)
qed

lemma same_prefix_le: "(xs @ ys \<le> xs @ zs) = (ys \<le> (zs::string))"
  by (induction xs) simp_all

lemma sorted_le_last: "sorted xs \<Longrightarrow> y \<in> set xs \<Longrightarrow> y \<le> last (xs::string list)"
proof (induction xs)
  case Nil
  then show ?case by simp
next
  case (Cons x xs)
  show ?case
  proof (cases "xs = []")
    case True
    then show ?thesis using Cons.prems by simp
  next
    case False
    have "y = x \<or> y \<in> set xs" using Cons.prems by auto
    then show ?thesis
    proof
      assume "y = x"
      moreover have "x \<le> last xs" using Cons.prems False by (simp add: last_in_set)
      ultimately show ?thesis using False by simp
    next
      assume "y \<in> set xs"
      then show ?thesis using Cons False by simp
    qed
  qed
qed

lemma latest_is_Max:
  assumes "ks \<noteq> []"
  shows "hd (rev (sort ks)) = Max (set (ks::string list))"
proof -
  have ne: "sort ks \<noteq> []"
  proof
    assume "sort ks = []"
    then have "set (sort ks) = {}" by simp
    then show False using assms by simp
  qed
  have l: "last (sort ks) \<in> set ks" using last_in_set[OF ne] by simp
  have "\<forall>y \<in> set ks. y \<le> last (sort ks)"
    using sorted_le_last[of "sort ks"] by simp
  then have "Max (set ks) = last (sort ks)" using l by (intro Max_eqI) auto
  then show ?thesis by (simp add: hd_rev)
qed

lemma fold_max_Max: "fold max ds d = Max (set (d # (ds::string list)))"
  by (rule Max.set_eq_fold[symmetric])

lemma cacheKeyFor_mono: "mono (cacheKeyFor c)"
  by (rule monoI) (simp add: cacheKeyFor_def same_prefix_le)

lemma latest_key:
  assumes "ks = map (cacheKeyFor c) (d # ds)"
  shows "hd (rev (sort ks)) = cacheKeyFor c (fold max ds d)"
proof -
  have ne: "ks \<noteq> []" using assms by simp
  have "hd (rev (sort ks)) = Max (set ks)" by (rule latest_is_Max[OF ne])
  also have "\<dots> = Max (cacheKeyFor c ` set (d # ds))" using assms by simp
  also have "\<dots> = cacheKeyFor c (Max (set (d # ds)))"
    by (rule mono_Max_commute[OF cacheKeyFor_mono, symmetric]) simp_all
  also have "\<dots> = cacheKeyFor c (fold max ds d)" by (simp only: fold_max_Max)
  finally show ?thesis .
qed

lemma divmod_less:
  "((a::nat) div k < b div k \<or> a div k = b div k \<and> a mod k < b mod k) = (a < b)"
proof (cases "a div k = b div k")
  case True
  have "(a < b) = (k * (a div k) + a mod k < k * (b div k) + b mod k)" by simp
  also have "\<dots> = (a mod k < b mod k)" unfolding True by (rule nat_add_left_cancel_less)
  finally show ?thesis using True by simp
next
  case False
  show ?thesis
  proof (cases "a div k < b div k")
    case True
    have "\<not> b \<le> a"
    proof
      assume "b \<le> a"
      then have "b div k \<le> a div k" by (rule div_le_mono)
      then show False using True by simp
    qed
    then show ?thesis using True by simp
  next
    case F: False
    then have lt: "b div k < a div k" using False by simp
    have "\<not> a \<le> b"
    proof
      assume "a \<le> b"
      then have "a div k \<le> b div k" by (rule div_le_mono)
      then show False using lt by simp
    qed
    then show ?thesis using F False by simp
  qed
qed

lemma divmod_eq: "((a::nat) div k = b div k \<and> a mod k = b mod k) = (a = b)"
proof
  assume "a div k = b div k \<and> a mod k = b mod k"
  then have "k * (a div k) + a mod k = k * (b div k) + b mod k" by simp
  then show "a = b" by simp
next
  assume "a = b"
  then show "a div k = b div k \<and> a mod k = b mod k" by simp
qed

lemma of_char_digitChar: "a < 10 \<Longrightarrow> of_char (digitChar a) = 48 + a"
proof -
  assume "a < 10"
  then have "a = 0 \<or> a = 1 \<or> a = 2 \<or> a = 3 \<or> a = 4 \<or> a = 5 \<or> a = 6 \<or> a = 7 \<or> a = 8 \<or> a = 9"
    by arith
  then show ?thesis by (elim disjE) (simp_all add: digitChar_def)
qed

lemma digitChar_less: "a < 10 \<Longrightarrow> b < 10 \<Longrightarrow> (digitChar a < digitChar b) = (a < b)"
  by (simp add: less_char_def of_char_digitChar)

lemma digitChar_eq: "a < 10 \<Longrightarrow> b < 10 \<Longrightarrow> (digitChar a = digitChar b) = (a = b)"
proof
  assume a: "a < 10" and b: "b < 10" and e: "digitChar a = digitChar b"
  have "(of_char (digitChar a) :: nat) = of_char (digitChar b)" using e by simp
  then show "a = b" using a b by (simp add: of_char_digitChar)
next
  assume "a = b" then show "digitChar a = digitChar b" by simp
qed

lemma isDigit_digitChar: "a < 10 \<Longrightarrow> isDigit (digitChar a)"
  by (simp add: isDigit_def less_eq_char_def of_char_digitChar)

lemma pad2_less: "n < 100 \<Longrightarrow> n' < 100 \<Longrightarrow> (pad2 n < pad2 n') = (n < n')"
proof -
  assume n: "n < 100" and n': "n' < 100"
  have d: "n div 10 < 10" "n' div 10 < 10" "n mod 10 < 10" "n' mod 10 < 10" using n n' by auto
  have "(pad2 n < pad2 n') = (n div 10 < n' div 10 \<or> n div 10 = n' div 10 \<and> n mod 10 < n' mod 10)"
    using d by (simp add: pad2_def digitChar_less digitChar_eq)
  also have "\<dots> = (n < n')" by (rule divmod_less)
  finally show ?thesis .
qed

lemma pad2_eq: "n < 100 \<Longrightarrow> n' < 100 \<Longrightarrow> (pad2 n = pad2 n') = (n = n')"
proof -
  assume n: "n < 100" and n': "n' < 100"
  have d: "n div 10 < 10" "n' div 10 < 10" "n mod 10 < 10" "n' mod 10 < 10" using n n' by auto
  have "(pad2 n = pad2 n') = (n div 10 = n' div 10 \<and> n mod 10 = n' mod 10)"
    using d by (simp add: pad2_def digitChar_eq)
  also have "\<dots> = (n = n')" by (rule divmod_eq)
  finally show ?thesis .
qed

lemma append_less_same_length:
  "length xs = length xs' \<Longrightarrow>
   (xs @ ys < xs' @ ys') = (xs < xs' \<or> xs = xs' \<and> ys < (ys'::string))"
  by (induction xs xs' rule: list_induct2) auto

lemma length_pad2 [simp]: "length (pad2 n) = 2"
  by (simp add: pad2_def)

lemma pad4_less: "n < 10000 \<Longrightarrow> n' < 10000 \<Longrightarrow> (pad4 n < pad4 n') = (n < n')"
proof -
  assume n: "n < 10000" and n': "n' < 10000"
  have d: "n div 100 < 100" "n' div 100 < 100" "n mod 100 < 100" "n' mod 100 < 100"
    using n n' by auto
  have "(pad4 n < pad4 n') =
     (n div 100 < n' div 100 \<or> n div 100 = n' div 100 \<and> n mod 100 < n' mod 100)"
    unfolding pad4_def using d
    by (simp add: append_less_same_length pad2_less pad2_eq)
  also have "\<dots> = (n < n')" by (rule divmod_less)
  finally show ?thesis .
qed

lemma pad4_eq: "n < 10000 \<Longrightarrow> n' < 10000 \<Longrightarrow> (pad4 n = pad4 n') = (n = n')"
proof -
  assume n: "n < 10000" and n': "n' < 10000"
  have d: "n div 100 < 100" "n' div 100 < 100" "n mod 100 < 100" "n' mod 100 < 100"
    using n n' by auto
  have "(pad4 n = pad4 n') = (n div 100 = n' div 100 \<and> n mod 100 = n' mod 100)"
    unfolding pad4_def using d by (simp add: pad2_eq)
  also have "\<dots> = (n = n')" by (rule divmod_eq)
  finally show ?thesis .
qed

lemma isoDate_less:
  assumes "y < 10000" "y' < 10000" "m < 100" "m' < 100" "d < 100" "d' < 100"
  shows "(isoDate y m d < isoDate y' m' d')
         = (y < y' \<or> y = y' \<and> (m < m' \<or> m = m' \<and> d < d'))"
proof -
  have l4: "length (pad4 y) = length (pad4 y')" by (simp add: pad4_def)
  have l2: "length (pad2 m) = length (pad2 m')" by simp
  have "(isoDate y m d < isoDate y' m' d')
        = (pad4 y < pad4 y' \<or> pad4 y = pad4 y' \<and>
            (pad2 m < pad2 m' \<or> pad2 m = pad2 m' \<and> pad2 d < pad2 d'))"
    unfolding isoDate_def
    by (simp add: append_less_same_length[OF l4] append_less_same_length[OF l2])
  then show ?thesis using assms by (simp add: pad4_less pad4_eq pad2_less pad2_eq)
qed

lemma isoDateString_isoDate:
  assumes "y < 10000" "m < 100" "d < 100"
  shows "isoDateString (isoDate y m d)"
proof -
  have "y div 100 div 10 < 10" "y div 100 mod 10 < 10" "y mod 100 div 10 < 10"
    "y mod 100 mod 10 < 10" "m div 10 < 10" "m mod 10 < 10" "d div 10 < 10" "d mod 10 < 10"
    using assms by auto
  then show ?thesis
    by (simp add: isoDateString_def isoDate_def pad4_def pad2_def isDigit_digitChar)
qed

lemma iso_examples:
  "isoDateString ''2024-05-08''" "isoDateString ''2024-05-12''" "isoDateString ''2024-05-13''"
  by (simp_all add: isoDateString_def isDigit_def)

lemma isoDate_examples:
  "isoDate 2024 5 8 = ''2024-05-08''" "isoDate 2024 5 12 = ''2024-05-12''"
  by (simp_all add: isoDate_def pad4_def pad2_def digitChar_def)

lemma resolutions_mem: "''1080p'' \<in> set resolutions" "''4k'' \<in> set resolutions"
  by (simp_all add: resolutions_def)

lemma exampleStore_wf: "storeWellFormed exampleStore"
  unfolding storeWellFormed_def exampleStore_def
  using iso_examples resolutions_mem
  by (simp add: init_def) blast

subsection \<open>The calendar\<close>

lemma daysInMonth_bounds: "28 \<le> daysInMonth y m \<and> daysInMonth y m \<le> 31"
  by (simp add: daysInMonth_def)

lemma dayBefore_calendar:
  assumes "calendarDate dt" "1 \<le> fst dt"
  shows "calendarDate (dayBefore dt) \<and> dateLess (dayBefore dt) dt \<and> fst dt - 1 \<le> fst (dayBefore dt)"
proof (cases dt)
  case (fields y m d)
  have c: "y \<le> 9999" "1 \<le> m" "m \<le> 12" "1 \<le> d" "d \<le> daysInMonth y m" "1 \<le> y"
    using assms unfolding fields by simp_all
  show ?thesis
  proof (cases "1 < d")
    case True
    then have "1 \<le> d - 1 \<and> d - 1 \<le> daysInMonth y m \<and> d - 1 < d" using c by arith
    then show ?thesis unfolding fields using c True by simp
  next
    case False
    then have d1: "d = 1" using c by arith
    show ?thesis
    proof (cases "1 < m")
      case True
      have "1 \<le> daysInMonth y (m - 1)" using daysInMonth_bounds[of y "m - 1"] by arith
      moreover have "1 \<le> m - 1 \<and> m - 1 \<le> 12 \<and> m - 1 < m" using c True by arith
      ultimately show ?thesis unfolding fields d1 using c True by simp
    next
      case False
      then have m1: "m = 1" using c by arith
      have "daysInMonth (y - 1) 12 = 31" by (simp add: daysInMonth_def)
      moreover have "y - 1 \<le> 9999 \<and> y - 1 < y" using c by arith
      ultimately show ?thesis unfolding fields d1 m1 by simp
    qed
  qed
qed

lemma daysAgo_calendar:
  assumes "calendarDate dt" "k \<le> fst dt"
  shows "calendarDate (daysAgo k dt) \<and> fst dt - k \<le> fst (daysAgo k dt)"
  using assms(2)
proof (induction k)
  case 0
  then show ?case using assms(1) by simp
next
  case (Suc k)
  then have ih: "calendarDate (daysAgo k dt)" "fst dt - k \<le> fst (daysAgo k dt)" by simp_all
  have "1 \<le> fst (daysAgo k dt)" using ih(2) Suc.prems by simp
  from dayBefore_calendar[OF ih(1) this]
  have d: "calendarDate (dayBefore (daysAgo k dt))"
    "fst (daysAgo k dt) - 1 \<le> fst (dayBefore (daysAgo k dt))" by simp_all
  have "fst dt - Suc k \<le> fst (dayBefore (daysAgo k dt))" using d(2) ih(2) by arith
  then show ?case using d(1) by simp
qed

lemma dateLess_trans: "dateLess a b \<Longrightarrow> dateLess b c \<Longrightarrow> dateLess a c"
  by (cases a, cases b, cases c) auto

lemma dateLess_irrefl: "\<not> dateLess a a"
  by (cases a) simp

lemma daysAgo_less:
  assumes "calendarDate dt" "k \<le> fst dt" "j < k"
  shows "dateLess (daysAgo k dt) (daysAgo j dt)"
  using assms(2,3)
proof (induction k)
  case 0
  then show ?case by simp
next
  case (Suc k)
  have c: "calendarDate (daysAgo k dt)" "fst dt - k \<le> fst (daysAgo k dt)"
    using daysAgo_calendar[OF assms(1), of k] Suc.prems by simp_all
  have "1 \<le> fst (daysAgo k dt)" using c(2) Suc.prems by simp
  then have l: "dateLess (daysAgo (Suc k) dt) (daysAgo k dt)"
    using dayBefore_calendar[OF c(1)] by simp
  show ?case
  proof (cases "j = k")
    case True
    then show ?thesis using l by simp
  next
    case False
    then have "dateLess (daysAgo k dt) (daysAgo j dt)" using Suc by simp
    then show ?thesis using l dateLess_trans by blast
  qed
qed

lemma daysAgo_before:
  assumes "calendarDate dt" "k \<le> fst dt" "n \<le> fst dt"
  shows "dateLess (daysAgo k dt) (daysAgo n dt) = (n < k)"
proof (cases "n < k")
  case True
  then show ?thesis using daysAgo_less[OF assms(1,2)] by simp
next
  case False
  show ?thesis
  proof (cases "k = n")
    case True
    then show ?thesis using dateLess_irrefl by simp
  next
    case ne: False
    then have "k < n" using False by simp
    then have "dateLess (daysAgo n dt) (daysAgo k dt)" using daysAgo_less[OF assms(1,3)] by simp
    then have "\<not> dateLess (daysAgo k dt) (daysAgo n dt)"
      using dateLess_trans dateLess_irrefl by blast
    then show ?thesis using False by simp
  qed
qed

lemma calendarDate_bounds:
  "calendarDate (y, m, d) \<Longrightarrow> y < 10000 \<and> m < 100 \<and> d < 100"
  using daysInMonth_bounds[of y m] by simp

lemma getLocalDateString_less:
  assumes "calendarDate a" "calendarDate b"
  shows "(getLocalDateString a < getLocalDateString b) = dateLess a b"
proof (cases a)
  case a: (fields y m d)
  show ?thesis
  proof (cases b)
    case b: (fields y' m' d')
    have "y < 10000 \<and> m < 100 \<and> d < 100" "y' < 10000 \<and> m' < 100 \<and> d' < 100"
      using assms calendarDate_bounds unfolding a b by blast+
    then show ?thesis unfolding a b using isoDate_less[of y y' m m' d d'] by simp
  qed
qed

lemma isoDateString_getLocalDateString:
  "calendarDate dt \<Longrightarrow> isoDateString (getLocalDateString dt)"
proof (cases dt)
  case (fields y m d)
  assume "calendarDate dt"
  then have "y < 10000 \<and> m < 100 \<and> d < 100" using calendarDate_bounds unfolding fields by blast
  then show ?thesis unfolding fields using isoDateString_isoDate by simp
qed

lemma expiredKey_date:
  assumes r: "r \<in> set resolutions" and a: "calendarDate dt" and c: "calendarDate cutoff"
  shows "expiredKey (getLocalDateString cutoff) (cacheKeyFor r (getLocalDateString dt))
           = dateLess dt cutoff"
    and "expiredKey (getLocalDateString cutoff) (cacheKeyFor r (getLocalDateString dt) @ ''-metadata'')
           = dateLess dt cutoff"
proof -
  have iso: "isoDateString (getLocalDateString dt)" by (rule isoDateString_getLocalDateString[OF a])
  have lt: "(getLocalDateString dt < getLocalDateString cutoff) = dateLess dt cutoff"
    by (rule getLocalDateString_less[OF a c])
  have m: "matchDate (cacheKeyFor r (getLocalDateString dt) @ []) = Some (getLocalDateString dt)"
    and mm: "matchDate (cacheKeyFor r (getLocalDateString dt) @ ''-metadata'')
               = Some (getLocalDateString dt)"
    using matchDate_entry_key[OF iso r] by blast+
  show "expiredKey (getLocalDateString cutoff) (cacheKeyFor r (getLocalDateString dt))
           = dateLess dt cutoff"
    using m lt startsWith_prefix[of r "getLocalDateString dt"]
    by (simp add: expiredKey_def dateBefore_def)
  show "expiredKey (getLocalDateString cutoff) (cacheKeyFor r (getLocalDateString dt) @ ''-metadata'')
           = dateLess dt cutoff"
    using mm lt startsWith_prefix_meta[of r "getLocalDateString dt" "''-metadata''"]
    by (simp add: expiredKey_def dateBefore_def)
qed

lemma validDate_calendar: "validDate dt \<Longrightarrow> calendarDate dt \<and> 1970 \<le> fst dt"
  by (simp add: validDate_def)

lemma validDate_today: "validDate (now e) \<Longrightarrow> isoDateString (today e)"
  unfolding today_def using isoDateString_getLocalDateString validDate_calendar by blast

lemma validDate_datesWellFormed:
  assumes "validDate (now e)"
  shows "datesWellFormed e"
proof -
  have c: "calendarDate (now e)" and y: "1970 \<le> fst (now e)"
    using validDate_calendar[OF assms] by simp_all
  have c1: "calendarDate (daysAgo 1 (now e))" and c3: "calendarDate (daysAgo 3 (now e))"
    using daysAgo_calendar[OF c, of 1] daysAgo_calendar[OF c, of 3] y by simp_all
  have c0: "calendarDate (daysAgo 0 (now e))" using c by simp
  have i: "isoDateString (today e)" "isoDateString (yesterday e)" "isoDateString (threeDaysAgo e)"
    unfolding today_def yesterday_def threeDaysAgo_def
    using isoDateString_getLocalDateString c c1 c3 by blast+
  have "dateLess (daysAgo 3 (now e)) (daysAgo 1 (now e))"
    using daysAgo_less[OF c, of 3 1] y by simp
  then have a: "threeDaysAgo e < yesterday e"
    unfolding yesterday_def threeDaysAgo_def using getLocalDateString_less[OF c3 c1] by simp
  have "dateLess (daysAgo 1 (now e)) (daysAgo 0 (now e))"
    using daysAgo_less[OF c, of 1 0] y by simp
  then have b: "yesterday e < today e"
    unfolding yesterday_def today_def using getLocalDateString_less[OF c1 c0] by simp
  show ?thesis using i a b by (simp add: datesWellFormed_def isoDateString_def)
qed

subsection \<open>The store stays well-formed\<close>

lemma storeWellFormed_alt:
  "storeWellFormed s = (\<forall>kv \<in> set (idb s). blob_size (snd kv) \<noteq> 0 \<and> entryKey (fst kv))"
  by (simp add: storeWellFormed_def entryKey_def)

lemma set_update_subset: "set (AList.update k v al) \<subseteq> insert (k, v) (set al)"
  by (induction al) auto

lemma set_delete_subset: "set (AList.delete k al) \<subseteq> set al"
  by (induction al) auto

lemma standardState_idb_set:
  assumes "standardState s" "blob_size v \<noteq> 0" "entryKey k"
  shows "standardState (idb_set e s k v)"
proof (cases "idbWriteFails e")
  case True
  then show ?thesis using assms by (simp add: idb_set_def)
next
  case False
  have "\<forall>kv \<in> set (AList.update k v (idb s)). blob_size (snd kv) \<noteq> 0 \<and> entryKey (fst kv)"
    using assms set_update_subset[of k v "idb s"]
    by (auto simp: standardState_def storeWellFormed_alt)
  then show ?thesis using assms False
    by (simp add: idb_set_def standardState_def storeWellFormed_alt)
qed

lemma standardState_idb_upd:
  assumes "standardState s" "set xs \<subseteq> set (idb s)"
  shows "standardState (s\<lparr>idb := xs\<rparr>)"
  using assms by (auto simp: standardState_def storeWellFormed_alt)

lemma standardState_idb_delete:
  assumes "idb_delete e s k = Inr s'" "standardState s"
  shows "standardState s'"
proof -
  have "s' = s\<lparr>idb := AList.delete k (idb s)\<rparr>"
    using assms(1) by (auto simp: idb_delete_def split: if_splits)
  then show ?thesis using standardState_idb_upd[OF assms(2) set_delete_subset[of k "idb s"]] by simp
qed

lemma standardState_retryTimers_upd:
  assumes "standardState s" "\<forall>kt \<in> set xs. timerResolution (snd kt) \<in> set resolutions"
  shows "standardState (s\<lparr>retryTimers := xs\<rparr>)"
  using assms by (simp add: standardState_def storeWellFormed_alt)

lemma standardState_scheduleRetry:
  assumes "standardState s" "r \<in> set resolutions"
  shows "standardState (scheduleRetry s r)"
proof -
  let ?t = "\<lparr>delayMs = RETRY_DELAYS_MS ! (attemptCount s r mod length RETRY_DELAYS_MS),
             capturedRetryCount = attemptCount s r, timerResolution = r\<rparr>"
  have old: "\<forall>kt \<in> set (retryTimers s). timerResolution (snd kt) \<in> set resolutions"
    using assms(1) by (simp add: standardState_def)
  have "\<forall>kt \<in> set (AList.update (retryKey r) ?t (retryTimers s)).
           timerResolution (snd kt) \<in> set resolutions"
  proof
    fix kt assume "kt \<in> set (AList.update (retryKey r) ?t (retryTimers s))"
    then have "kt = (retryKey r, ?t) \<or> kt \<in> set (retryTimers s)"
      using set_update_subset[of "retryKey r" ?t "retryTimers s"] by auto
    then show "timerResolution (snd kt) \<in> set resolutions" using old assms(2) by auto
  qed
  then have "standardState (s\<lparr>retryTimers := AList.update (retryKey r) ?t (retryTimers s)\<rparr>)"
    by (rule standardState_retryTimers_upd[OF assms(1)])
  then show ?thesis using assms(1) by (simp add: scheduleRetry_def Let_def)
qed

lemma standardState_markUpdateSuccess:
  assumes "standardState s"
  shows "standardState (markUpdateSuccess e s r)"
  using assms set_delete_subset[of "retryKey r" "retryTimers s"]
  by (auto simp: markUpdateSuccess_def standardState_def storeWellFormed_alt)

lemma standardState_updateWallpaperInBackground:
  assumes "standardState s" "r \<in> set resolutions"
  shows "standardState (updateWallpaperInBackground e s r)"
  using assms
  by (auto simp: updateWallpaperInBackground_def Let_def standardState_def storeWellFormed_alt)

lemma entryKey_today:
  "r \<in> set resolutions \<Longrightarrow> isoDateString (today e) \<Longrightarrow>
   entryKey (getTodayCacheKey e r) \<and> entryKey (getTodayCacheKey e r @ ''-metadata'')"
  unfolding entryKey_def getTodayCacheKey_def by blast

lemma standardState_downloadAndCache:
  assumes "standardState s" "r \<in> set resolutions" "isoDateString (today e)"
  shows "standardState (snd (downloadAndCache e s u r))"
proof (cases "downloadAndCache e s u r")
  case (Pair y s1)
  show ?thesis
  proof (cases y)
    case (Inl err)
    then have "s1 = s" using Pair downloadAndCache_Inl by blast
    then show ?thesis using Pair assms by simp
  next
    case (Inr d)
    have "downloadAndCache e s u r = (Inr d, s1)" using Pair Inr by simp
    from downloadAndCache_Inr[OF this]
    obtain resp :: response where resp: "blob_size (body resp) \<noteq> 0"
      "isFallback d \<longrightarrow> s1 = s"
      "\<not> isFallback d \<longrightarrow>
          s1 = idb_set e (idb_set e s (getTodayCacheKey e r) (body resp))
                 (getTodayCacheKey e r @ ''-metadata'') (MetadataBlob (dl_originalUrl d))"
      by blast
    show ?thesis
    proof (cases "isFallback d")
      case True
      then show ?thesis using resp Pair assms by simp
    next
      case False
      have k: "entryKey (getTodayCacheKey e r)" "entryKey (getTodayCacheKey e r @ ''-metadata'')"
        using entryKey_today[OF assms(2,3)] by simp_all
      have "standardState (idb_set e s (getTodayCacheKey e r) (body resp))"
        by (rule standardState_idb_set[OF assms(1) resp(1) k(1)])
      then have "standardState (idb_set e (idb_set e s (getTodayCacheKey e r) (body resp))
                 (getTodayCacheKey e r @ ''-metadata'') (MetadataBlob (dl_originalUrl d)))"
        by (rule standardState_idb_set) (simp_all add: k)
      then show ?thesis using resp False Pair by simp
    qed
  qed
qed

lemma standardState_tasks_upd:
  assumes "standardState s" "\<forall>t \<in> set xs. task_resolution t \<in> set resolutions"
  shows "standardState (s\<lparr>tasks := xs\<rparr>)"
  using assms by (simp add: standardState_def storeWellFormed_alt)

lemma standardState_other_upd [simp]:
  "standardState (s\<lparr>retryCounts := a\<rparr>) = standardState s"
  "standardState (s\<lparr>localStorage := b\<rparr>) = standardState s"
  "standardState (s\<lparr>requests := c\<rparr>) = standardState s"
  "standardState (s\<lparr>settled := d\<rparr>) = standardState s"
  "standardState (s\<lparr>calls := f\<rparr>) = standardState s"
  "standardState (s\<lparr>nextPromise := g\<rparr>) = standardState s"
  "standardState (s\<lparr>loadingPromises := h\<rparr>) = standardState s"
  by (simp_all add: standardState_def storeWellFormed_alt)

lemma standardState_background_settled:
  assumes "standardState s" "r \<in> set resolutions" "isoDateString (today e)"
  shows "standardState (updateWallpaperInBackground_settled e s r u)"
proof (cases "downloadAndCache e s u r")
  case (Pair y s1)
  have "standardState (snd (downloadAndCache e s u r))"
    by (rule standardState_downloadAndCache[OF assms])
  then have s1: "standardState s1" using Pair by simp
  show ?thesis using Pair s1 assms(2)
    by (auto simp: updateWallpaperInBackground_settled_def standardState_scheduleRetry
        standardState_markUpdateSuccess split: sum.splits)
qed

lemma standardState_retryTimerFires:
  assumes "standardState s"
  shows "standardState (retryTimerFires e s r)"
proof (cases "map_of (retryTimers s) (retryKey r)")
  case None
  then show ?thesis using assms by (simp add: retryTimerFires_def)
next
  case (Some t)
  then have "(retryKey r, t) \<in> set (retryTimers s)" by (rule map_of_SomeD)
  then have tr: "timerResolution t \<in> set resolutions"
    using assms by (fastforce simp: standardState_def)
  have "\<forall>kt \<in> set (AList.delete (retryKey r) (retryTimers s)).
          timerResolution (snd kt) \<in> set resolutions"
    using assms set_delete_subset[of "retryKey r" "retryTimers s"]
    by (auto simp: standardState_def)
  then have "standardState (s\<lparr>retryTimers := AList.delete (retryKey r) (retryTimers s)\<rparr>)"
    by (rule standardState_retryTimers_upd[OF assms])
  then have "standardState (s\<lparr>retryTimers := AList.delete (retryKey r) (retryTimers s),
               retryCounts := AList.update (timerResolution t) (capturedRetryCount t + 1)
                                (retryCounts s)\<rparr>)"
    by simp
  then show ?thesis using Some tr
    by (simp add: retryTimerFires_def standardState_updateWallpaperInBackground)
qed

lemma standardState_clearCacheForDate:
  assumes "standardState s"
  shows "standardState (clearCacheForDate e s r d)"
  using assms
  by (auto simp: clearCacheForDate_def Let_def dest: standardState_idb_delete split: sum.splits)

lemma standardState_cleanupLoop:
  "standardState s \<Longrightarrow> standardState (cleanupLoop e c ks s)"
  by (induction ks arbitrary: s)
    (auto dest: standardState_idb_delete split: option.splits sum.splits)

lemma standardState_cleanupExpiredCache:
  "standardState s \<Longrightarrow> standardState (cleanupExpiredCache e s)"
  by (simp add: cleanupExpiredCache_def Let_def standardState_cleanupLoop split: sum.splits)

lemma standardState_onPageVisibleLoop:
  "standardState s \<Longrightarrow> set rs \<subseteq> set resolutions \<Longrightarrow> standardState (onPageVisibleLoop e rs s)"
  by (induction rs arbitrary: s) (auto simp: standardState_updateWallpaperInBackground)

lemma standardState_dailyCheckLoop:
  "standardState s \<Longrightarrow> set rs \<subseteq> set resolutions \<Longrightarrow>
   standardState (snd (dailyCheckLoop e rs s))"
  by (induction rs arbitrary: s)
    (auto simp: standardState_updateWallpaperInBackground split: sum.splits option.splits)

lemma standardState_performDailyCheck:
  assumes "standardState s"
  shows "standardState (performDailyCheck e s)"
proof -
  let ?s1 = "s\<lparr>localStorage := AList.update ''wallpaper-daily-check'' (today e) (localStorage s)\<rparr>"
  obtain x s2 where d: "dailyCheckLoop e resolutions ?s1 = (x, s2)"
    by (cases "dailyCheckLoop e resolutions ?s1")
  have "standardState (snd (dailyCheckLoop e resolutions ?s1))"
    by (rule standardState_dailyCheckLoop) (simp_all add: assms)
  then have "standardState s2" by (simp only: d snd_conv)
  then show ?thesis using d assms
    by (simp add: performDailyCheck_def Let_def standardState_cleanupExpiredCache
        split: option.splits)
qed

lemma standardState_requestWallpaper:
  "standardState s \<Longrightarrow> standardState (snd (requestWallpaper e s r sr fb))"
  by (simp add: requestWallpaper_def Let_def split: option.splits)

lemma standardState_tasks_weak:
  assumes "standardState s"
    and "\<forall>t \<in> set xs. task_resolution t \<in> set resolutions \<or> (\<exists>p sr tk. t = Called p ''custom'' sr tk)"
  shows "standardState (s\<lparr>tasks := xs\<rparr>)"
  using assms by (simp add: standardState_def storeWellFormed_alt)

lemma standardState_removed:
  assumes "standardState s"
  shows "standardState (s\<lparr>tasks := take i (tasks s) @ drop (Suc i) (tasks s)\<rparr>)"
proof (rule standardState_tasks_weak[OF assms])
  show "\<forall>t \<in> set (take i (tasks s) @ drop (Suc i) (tasks s)).
          task_resolution t \<in> set resolutions \<or> (\<exists>p sr tk. t = Called p ''custom'' sr tk)"
    using assms by (auto simp: standardState_def dest: in_set_takeD in_set_dropD)
qed

lemma standardState_lookup:
  assumes "standardState s" "r \<in> set resolutions \<or> r = ''custom''"
  shows "standardState (snd (getWallpaperInternal_lookup e s r sr tk))"
proof (cases "r = ''custom''")
  case True
  then show ?thesis using assms(1)
    by (simp add: getWallpaperInternal_lookup_def split: sum.splits option.splits)
next
  case False
  then have r: "r \<in> set resolutions" using assms(2) by simp
  have b: "standardState (updateWallpaperInBackground e s r)"
    by (rule standardState_updateWallpaperInBackground[OF assms(1) r])
  have c: "standardState (clearTodayCache e s r)"
    using standardState_clearCacheForDate[OF assms(1)] by (simp add: clearTodayCache_def)
  show ?thesis using False assms(1) b c
    by (simp add: getWallpaperInternal_lookup_def Let_def standardState_requestWallpaper
        split: option.splits)
qed

lemma standardState_resume:
  assumes "standardState s" "r \<in> set resolutions" "isoDateString (today e)"
  shows "standardState (snd (getWallpaperInternal_resume e s r u sr fb))"
proof (cases "downloadAndCache e s u r")
  case (Pair y s1)
  have "standardState (snd (downloadAndCache e s u r))"
    by (rule standardState_downloadAndCache[OF assms])
  then have s1: "standardState s1" using Pair by simp
  have m: "standardState (markUpdateSuccess e s1 r)"
    by (rule standardState_markUpdateSuccess[OF s1])
  have sr1: "\<And>s'. standardState s' \<Longrightarrow> standardState (scheduleRetry s' r)"
    using standardState_scheduleRetry assms(2) by blast
  show ?thesis using Pair s1 m sr1
    by (auto simp: getWallpaperInternal_resume_def Let_def
        dest!: standardState_idb_delete split: sum.splits option.splits)
qed

lemma lookup_custom_not_requested:
  "fst (getWallpaperInternal_lookup e s ''custom'' sr tk) \<noteq> Inr (Requested u sr' fb)"
proof (cases "customWallpaper e")
  case (Inl err)
  then show ?thesis by (simp add: getWallpaperInternal_lookup_def)
next
  case (Inr c)
  then show ?thesis by (cases c) (simp_all add: getWallpaperInternal_lookup_def)
qed

lemma standardState_same:
  "idb s' = idb s \<Longrightarrow> tasks s' = tasks s \<Longrightarrow> retryTimers s' = retryTimers s \<Longrightarrow>
   standardState s' = standardState s"
  by (simp add: standardState_def storeWellFormed_alt)

lemma standardState_getWallpaper:
  assumes "standardState s" "r \<in> set resolutions \<or> r = ''custom''"
  shows "standardState (getWallpaper e s r)"
proof (cases "map_of (loadingPromises s) (loadingKey r)")
  case (Some p)
  then show ?thesis using assms(1) by (simp add: getWallpaper_def)
next
  case None
  let ?t = "Called (nextPromise s) r (shouldForceRefresh e s r)
            (getTodayCacheKey e r)"
  have "\<forall>t \<in> set (tasks s @ [?t]).
          task_resolution t \<in> set resolutions \<or> (\<exists>p sr tk. t = Called p ''custom'' sr tk)"
    using assms by (auto simp: standardState_def)
  then have a: "standardState (s\<lparr>tasks := tasks s @ [?t]\<rparr>)"
    by (rule standardState_tasks_weak[OF assms(1)])
  have "standardState (getWallpaper e s r) = standardState (s\<lparr>tasks := tasks s @ [?t]\<rparr>)"
    using None by (intro standardState_same) (simp_all add: getWallpaper_def Let_def)
  then show ?thesis using a by simp
qed

lemma standardState_lookupSettles:
  assumes "standardState s"
  shows "standardState (lookupSettles e s i)"
proof (cases "i < length (tasks s) \<and> (\<exists>p r sr tk. tasks s ! i = Called p r sr tk)")
  case False
  then show ?thesis using assms lookupSettles_other by simp
next
  case True
  then obtain p r sr tk where i: "i < length (tasks s)" and t: "tasks s ! i = Called p r sr tk"
    by blast
  let ?s0 = "s\<lparr>tasks := take i (tasks s) @ drop (Suc i) (tasks s)\<rparr>"
  have s0: "standardState ?s0" by (rule standardState_removed[OF assms])
  have "Called p r sr tk \<in> set (tasks s)" using i t in_set_nth_split[of i "tasks s"] by simp
  then have r: "r \<in> set resolutions \<or> r = ''custom''"
    using assms by (auto simp: standardState_def)
  have l: "\<And>x s1. catchAll (getWallpaperInternal_lookup e ?s0 r sr tk) (Returned errorWallpaper)
                 = (x, s1) \<Longrightarrow> standardState s1"
  proof -
    fix x s1
    assume a: "catchAll (getWallpaperInternal_lookup e ?s0 r sr tk) (Returned errorWallpaper) = (x, s1)"
    have "standardState (snd (catchAll (getWallpaperInternal_lookup e ?s0 r sr tk)
            (Returned errorWallpaper)))"
      using standardState_lookup[OF s0 r, of e sr tk] by simp
    then show "standardState s1" by (simp only: a snd_conv)
  qed
  from i t show ?thesis
  proof (cases rule: lookupSettles_cases[where e = e])
    case (returned w s1)
    have "standardState (lookupSettles e s i) = standardState s1"
      unfolding returned(2) by (intro standardState_same) simp_all
    then show ?thesis using l[OF returned(1)] by simp
  next
    case (requested u sr' fb s1)
    have s1: "standardState s1" by (rule l[OF requested(1)])
    have "r \<noteq> ''custom''"
    proof
      assume c: "r = ''custom''"
      have "fst (catchAll (getWallpaperInternal_lookup e ?s0 r sr tk) (Returned errorWallpaper))
              = Inr (Requested u sr' fb)"
        using requested(1) by simp
      then have "fst (getWallpaperInternal_lookup e ?s0 r sr tk) = Inr (Requested u sr' fb)"
        by (cases "getWallpaperInternal_lookup e ?s0 r sr tk")
          (auto simp: catchAll_def split: sum.splits)
      then show False using lookup_custom_not_requested[of e ?s0 sr tk u sr' fb] c by simp
    qed
    then have r': "r \<in> set resolutions" using r by simp
    have "\<forall>t \<in> set (tasks s1 @ [Foreground p r u sr' fb]).
            task_resolution t \<in> set resolutions \<or> (\<exists>p sr tk. t = Called p ''custom'' sr tk)"
      using s1 r' by (auto simp: standardState_def)
    then show ?thesis unfolding requested(2) by (rule standardState_tasks_weak[OF s1])
  qed
qed

lemma standardState_downloadSettles:
  assumes "standardState s" "isoDateString (today e)"
  shows "standardState (downloadSettles e s i)"
proof (cases "i < length (tasks s)")
  case False
  then show ?thesis using assms by (simp add: downloadSettles_def)
next
  case True
  let ?s0 = "s\<lparr>tasks := take i (tasks s) @ drop (Suc i) (tasks s)\<rparr>"
  have s0: "standardState ?s0" by (rule standardState_removed[OF assms(1)])
  have mem: "tasks s ! i \<in> set (tasks s)" using True by simp
  show ?thesis
  proof (cases "tasks s ! i")
    case (Called p r sr tk)
    then show ?thesis using True assms(1) by (simp add: downloadSettles_def Let_def)
  next
    case (Background r u)
    have tr: "r \<in> set resolutions"
      using assms(1) mem unfolding Background by (auto simp: standardState_def)
    show ?thesis using True Background tr standardState_background_settled[OF s0 _ assms(2), of r u]
      by (simp add: downloadSettles_def Let_def)
  next
    case (Foreground p r u sr fb)
    obtain x s1 where st: "getWallpaperInternal_settled e ?s0 r u sr fb = (x, s1)"
      by (cases "getWallpaperInternal_settled e ?s0 r u sr fb")
    have r: "r \<in> set resolutions"
      using assms(1) mem unfolding Foreground by (auto simp: standardState_def)
    have "standardState (snd (getWallpaperInternal_settled e ?s0 r u sr fb))"
      using standardState_resume[OF s0 r assms(2), of u sr fb]
      by (simp add: getWallpaperInternal_settled_def)
    then have "standardState s1" by (simp only: st snd_conv)
    then show ?thesis using True Foreground st
      by (simp add: downloadSettles_def Let_def)
  qed
qed

lemma standardState_step:
  assumes "standardState s" "isoDateString (today e)" "standardEvent ev"
  shows "standardState (step e ev s)"
proof (cases ev)
  case (GetWallpaper r)
  then show ?thesis using assms standardState_getWallpaper by simp
next
  case (LookupSettles i)
  then show ?thesis using assms standardState_lookupSettles by simp
next
  case (DownloadSettles i)
  then show ?thesis using assms standardState_downloadSettles by simp
next
  case (RetryTimerFires r)
  then show ?thesis using assms standardState_retryTimerFires by simp
next
  case PageVisible
  then show ?thesis using assms standardState_onPageVisibleLoop[of s resolutions e]
    by (simp add: onPageVisible_def)
next
  case DailyCheck
  then show ?thesis using assms standardState_performDailyCheck by simp
next
  case CleanupExpiredCache
  then show ?thesis using assms standardState_cleanupExpiredCache by simp
next
  case (ClearCacheForDate r d)
  then show ?thesis using assms standardState_clearCacheForDate by simp
qed

lemma standardState_run:
  "standardState s \<Longrightarrow> \<forall>x \<in> set es. isoDateString (today (fst x)) \<and> standardEvent (snd x) \<Longrightarrow>
   standardState (run es s)"
proof (induction es arbitrary: s)
  case Nil
  then show ?case by simp
next
  case (Cons a es)
  obtain e ev where a: "a = (e, ev)" by (cases a)
  have "standardState (step e ev s)"
    using Cons.prems a by (intro standardState_step) simp_all
  then show ?case using Cons a by simp
qed

lemma standardState_init: "standardState init"
  by (simp add: standardState_def storeWellFormed_def init_def)

subsection \<open>The tiers of getSmartCache\<close>

text \<open>On a well-formed store the code's resolver and the specification's agree.\<close>

lemma getSmartCache_resolvePresent:
  assumes nr: "\<not> idbReadFails e" and wf: "keysWellFormed s"
    and c: "category \<in> set resolutions"
  shows "getSmartCache e s category = resolvePresent e s category"
proof -
  have g: "\<And>k. idb_get e s k = Inr (map_of (idb s) k)" using nr by (simp add: idb_get_def)
  have ga: "idb_getAllKeys e s = Inr (map fst (idb s))" using nr by (simp add: idb_getAllKeys_def)
  have ks: "wallpaperKeysOf category (map fst (idb s))
            = map (cacheKeyFor category) (storedDates s category)"
    by (rule wallpaperKeysOf_dates[OF wf c])
  have older: "(case idb_getAllKeys e s of
                  Inl err \<Rightarrow> None
                | Inr allKeys \<Rightarrow>
                    let wallpaperKeys = wallpaperKeysOf category allKeys in
                    if wallpaperKeys \<noteq> [] then
                      let latestKey = hd (rev (sort wallpaperKeys)) in
                      (case idb_get e s latestKey of
                         Inl err \<Rightarrow> None
                       | Inr None \<Rightarrow> None
                       | Inr (Some latestCache) \<Rightarrow> cachedEntry e s latestKey latestCache False)
                    else None)
       = (case storedDates s category of
            [] \<Rightarrow> None
          | d # ds \<Rightarrow>
              let latestKey = cacheKeyFor category (fold max ds d) in
              (case map_of (idb s) latestKey of
                 Some b \<Rightarrow> cachedEntry e s latestKey b False
               | None \<Rightarrow> None))"
  proof (cases "storedDates s category")
    case Nil
    then show ?thesis using ks ga by simp
  next
    case (Cons d ds)
    then have k2: "wallpaperKeysOf category (map fst (idb s)) = map (cacheKeyFor category) (d # ds)"
      using ks by simp
    have l: "hd (rev (sort (wallpaperKeysOf category (map fst (idb s)))))
             = cacheKeyFor category (fold max ds d)"
      by (rule latest_key[OF k2])
    have ne: "wallpaperKeysOf category (map fst (idb s)) \<noteq> []" using k2 by simp
    show ?thesis
      using Cons ga ne l g by (simp add: Let_def split: option.splits)
  qed
  show ?thesis
  proof (cases "map_of (idb s) (cacheKeyFor category (today e))")
    case (Some b)
    then show ?thesis using g
      by (simp add: getSmartCache_def getSmartCache_from_def resolvePresent_def getTodayCacheKey_def Let_def)
  next
    case None
    note tn = this
    show ?thesis
    proof (cases "map_of (idb s) (cacheKeyFor category (yesterday e))")
      case (Some b)
      then show ?thesis using tn g
        by (simp add: getSmartCache_def getSmartCache_from_def resolvePresent_def getTodayCacheKey_def
            getYesterdayCacheKey_def Let_def)
    next
      case None
      have "getSmartCache e s category =
         (case idb_getAllKeys e s of
                  Inl err \<Rightarrow> None
                | Inr allKeys \<Rightarrow>
                    let wallpaperKeys = wallpaperKeysOf category allKeys in
                    if wallpaperKeys \<noteq> [] then
                      let latestKey = hd (rev (sort wallpaperKeys)) in
                      (case idb_get e s latestKey of
                         Inl err \<Rightarrow> None
                       | Inr None \<Rightarrow> None
                       | Inr (Some latestCache) \<Rightarrow> cachedEntry e s latestKey latestCache False)
                    else None)"
        using tn None g
        by (simp add: getSmartCache_def getSmartCache_from_def getTodayCacheKey_def getYesterdayCacheKey_def)
      moreover have "resolvePresent e s category =
         (case storedDates s category of
            [] \<Rightarrow> None
          | d # ds \<Rightarrow>
              let latestKey = cacheKeyFor category (fold max ds d) in
              (case map_of (idb s) latestKey of
                 Some b \<Rightarrow> cachedEntry e s latestKey b False
               | None \<Rightarrow> None))"
        using tn None by (simp add: resolvePresent_def Let_def)
      ultimately show ?thesis using older by simp
    qed
  qed
qed

lemma storeWellFormed_keys: "storeWellFormed s \<Longrightarrow> keysWellFormed s"
  unfolding storeWellFormed_def keysWellFormed_def by blast

lemma resolvePresent_resolveSpec:
  assumes wf: "storeWellFormed s"
  shows "resolvePresent e s category = resolveSpec e s category"
proof -
  have nonempty: "\<And>k b. map_of (idb s) k = Some b \<Longrightarrow> blob_size b \<noteq> 0"
  proof -
    fix k b assume "map_of (idb s) k = Some b"
    then have "(k, b) \<in> set (idb s)" by (rule map_of_SomeD)
    then show "blob_size b \<noteq> 0" using wf unfolding storeWellFormed_def by fastforce
  qed
  show ?thesis
  proof (cases "map_of (idb s) (cacheKeyFor category (today e))")
    case (Some b)
    then show ?thesis using nonempty[OF Some]
      by (simp add: resolvePresent_def resolveSpec_def Let_def)
  next
    case None
    then show ?thesis by (simp add: resolvePresent_def resolveSpec_def Let_def)
  qed
qed

lemma getSmartCache_resolveSpec:
  assumes nr: "\<not> idbReadFails e" and wf: "storeWellFormed s"
    and c: "category \<in> set resolutions"
  shows "getSmartCache e s category = resolveSpec e s category"
  using getSmartCache_resolvePresent[OF nr storeWellFormed_keys[OF wf] c]
    resolvePresent_resolveSpec[OF wf] by simp

text \<open>
  C6, as the code has it. With reads that succeed and a store whose keys are those of the
  service, \<^verbatim>\<open>getSmartCache\<close> follows the tiers by presence alone: today's entry with
  \<open>isToday = True\<close> if it is present, empty or not; else yesterday's entry with
  \<open>isToday = False\<close> if present; else, among the stored keys of the resolution, the entry of
  the lexicographically greatest date, with \<open>isToday = False\<close>; else nothing. Where no
  payload is empty this is the resolver of the specification, and no payload is empty in
  the states the service reaches from the empty one when the application calls it with
  its resolutions.
\<close>

theorem getSmartCache_tiers:
  assumes nr: "\<not> idbReadFails e" and c: "category \<in> set resolutions"
  shows "(keysWellFormed s \<longrightarrow> getSmartCache e s category = resolvePresent e s category)
     \<and> (storeWellFormed s \<longrightarrow> getSmartCache e s category = resolveSpec e s category)
     \<and> ((\<forall>x \<in> set es. validDate (now (fst x)) \<and> standardEvent (snd x)) \<longrightarrow>
          getSmartCache e (run es init) category = resolveSpec e (run es init) category)"
proof (intro conjI impI)
  assume "keysWellFormed s"
  then show "getSmartCache e s category = resolvePresent e s category"
    by (rule getSmartCache_resolvePresent[OF nr _ c])
next
  assume "storeWellFormed s"
  then show "getSmartCache e s category = resolveSpec e s category"
    by (rule getSmartCache_resolveSpec[OF nr _ c])
next
  assume "\<forall>x \<in> set es. validDate (now (fst x)) \<and> standardEvent (snd x)"
  then have "\<forall>x \<in> set es. isoDateString (today (fst x)) \<and> standardEvent (snd x)"
    using validDate_today by blast
  then have "standardState (run es init)"
    by (rule standardState_run[OF standardState_init])
  then have "storeWellFormed (run es init)" by (simp add: standardState_def)
  then show "getSmartCache e (run es init) category = resolveSpec e (run es init) category"
    by (rule getSmartCache_resolveSpec[OF nr _ c])
qed

text \<open>
  C6 fails as stated: on 10 May, with an empty payload stored under 10 May and a payload
  under 9 May, the code returns the empty entry of today with \<open>isToday = True\<close>; the
  resolver of the specification passes it over and returns the entry of 9 May.
\<close>

theorem empty_payload_today:
  "getSmartCache onlineEnv emptyTodayStore ''1080p''
     = Some \<lparr>cached_url = ''blob:wallpaper'', cached_isToday = True, cached_originalUrl = None\<rparr>
   \<and> resolveSpec onlineEnv emptyTodayStore ''1080p''
     = Some \<lparr>cached_url = ''blob:wallpaper'', cached_isToday = False, cached_originalUrl = None\<rparr>
   \<and> map_of (idb emptyTodayStore) (getTodayCacheKey onlineEnv ''1080p'') = Some (ImageBlob 0 [])"
  by (simp add: getSmartCache_def getSmartCache_from_def resolveSpec_def emptyTodayStore_def init_def
      getTodayCacheKey_def getYesterdayCacheKey_def onlineEnv_fields cacheKeyFor_def
      cachedEntry_def getOriginalUrl_def idb_get_def Let_def)

text \<open>On 15 May, with entries of 8 and 12 May, the entry of 12 May is returned; on 10 May,
  after the download of that day, today's entry; and with an empty payload under 10 May,
  that one.\<close>

theorem getSmartCache_tiers_witness:
  "getSmartCache laterEnv exampleStore ''1080p''
     = Some \<lparr>cached_url = ''blob:wallpaper'', cached_isToday = False,
             cached_originalUrl = Some ''https://www.bing.com/may12.jpg''\<rparr>
   \<and> getSmartCache onlineEnv
        (run [(onlineEnv, GetWallpaper ''1080p''), (onlineEnv, LookupSettles 0),
              (onlineEnv, DownloadSettles 0)] init) ''1080p''
     = Some \<lparr>cached_url = ''blob:wallpaper'', cached_isToday = True,
             cached_originalUrl = Some ''https://www.bing.com/th?id=OHR.jpg''\<rparr>
   \<and> getSmartCache onlineEnv emptyTodayStore ''1080p''
     = resolvePresent onlineEnv emptyTodayStore ''1080p''"
proof -
  have nr: "\<not> idbReadFails laterEnv" by (simp add: laterEnv_fields)
  have nr2: "\<not> idbReadFails onlineEnv" by (simp add: onlineEnv_fields)
  have a: "resolveSpec laterEnv exampleStore ''1080p''
     = Some \<lparr>cached_url = ''blob:wallpaper'', cached_isToday = False,
             cached_originalUrl = Some ''https://www.bing.com/may12.jpg''\<rparr>"
    by (simp add: resolveSpec_def storedDates_def exampleStore_def init_def laterEnv_more
        laterEnv_fields cacheKeyFor_def startsWith_def isoDateString_def isDigit_def
        cachedEntry_def getOriginalUrl_def idb_get_def Let_def max_def)
  have r: "run [(onlineEnv, GetWallpaper ''1080p''), (onlineEnv, LookupSettles 0),
                (onlineEnv, DownloadSettles 0)] init = afterDownload"
    by (simp add: afterDownload_def afterRequest_def)
  have b: "resolveSpec onlineEnv afterDownload ''1080p''
     = Some \<lparr>cached_url = ''blob:wallpaper'', cached_isToday = True,
             cached_originalUrl = Some ''https://www.bing.com/th?id=OHR.jpg''\<rparr>"
    by (simp add: resolveSpec_def afterDownload_stores onlineEnv_fields cacheKeyFor_def
        cachedEntry_def getOriginalUrl_def idb_get_def Let_def)
  have n: "now onlineEnv = (2024, 5, 10)" by (simp add: onlineEnv_def offlineEnv_def)
  have ev: "\<forall>x \<in> set [(onlineEnv, GetWallpaper ''1080p''), (onlineEnv, LookupSettles 0),
                (onlineEnv, DownloadSettles 0)].
              validDate (now (fst x)) \<and> standardEvent (snd x)"
    by (simp add: n validDate_def daysInMonth_def resolutions_def)
  have iso: "isoDateString ''2024-05-10''" "isoDateString ''2024-05-09''"
    by (simp_all add: isoDateString_def isDigit_def)
  have k: "keysWellFormed emptyTodayStore"
    unfolding keysWellFormed_def emptyTodayStore_def
    using iso resolutions_mem(1) by (simp add: init_def) blast
  show ?thesis
    using getSmartCache_tiers[OF nr resolutions_mem(1), of exampleStore "[]"]
      getSmartCache_tiers[OF nr2 resolutions_mem(1), of emptyTodayStore
        "[(onlineEnv, GetWallpaper ''1080p''), (onlineEnv, LookupSettles 0),
          (onlineEnv, DownloadSettles 0)]"]
      exampleStore_wf a b ev k
    unfolding r by simp
qed

subsection \<open>No cache and no download\<close>

text \<open>
  C7, as the code has it. For a resolution other than custom with no cache tier and a
  download that fails (or none to try), the static local default is returned;
  \<open>needsUpdate\<close> is set exactly when a wallpaper service is configured.
\<close>

theorem no_cache_download_fails:
  assumes "resolution \<noteq> ''custom''" and "getSmartCache e s resolution = None"
    and "downloadFailure e = Some err"
  shows "fst (getWallpaperInternal e s resolution) =
           Inr \<lparr>url = fallbackImage, isFromCache = False, isToday = True,
                needsUpdate = (getWallpaperUrl e resolution \<noteq> fallbackImage),
                originalUrl = None\<rparr>"
  using assms getWallpaperInternal_no_cache_fails[of resolution e s err]
  by (simp add: localDefault_def errorWallpaper_def)

text \<open>
  C7 fails as stated: with no service configured and an empty store nothing is
  downloaded, no cache tier exists, and the local default comes back with
  \<open>needsUpdate = False\<close>.
\<close>

theorem unconfigured_no_needsUpdate:
  "getSmartCache unconfiguredEnv init ''1080p'' = None
   \<and> downloadFailure unconfiguredEnv = Some NetworkError
   \<and> getWallpaperInternal unconfiguredEnv init ''1080p'' = (Inr localDefault, init)
   \<and> \<not> needsUpdate localDefault"
proof -
  have c: "getSmartCache unconfiguredEnv init ''1080p'' = None"
    by (rule getSmartCache_empty) (simp add: init_def)
  have d: "downloadFailure unconfiguredEnv = Some NetworkError"
    by (simp add: downloadFailure_def unconfiguredEnv_def offlineEnv_def)
  have "getWallpaperInternal unconfiguredEnv init ''1080p'' = (Inr localDefault, init)"
    using getWallpaperInternal_no_cache_fails[OF custom_neq c d] unconfiguredEnv_url by simp
  then show ?thesis using c d by (simp add: localDefault_def)
qed

text \<open>With a service configured and the network down, \<open>needsUpdate\<close> is set.\<close>

theorem no_cache_download_fails_witness:
  "fst (getWallpaperInternal offlineEnv init ''1080p'') = Inr errorWallpaper"
proof -
  have c: "getSmartCache offlineEnv init ''1080p'' = None"
    by (rule getSmartCache_empty) (simp add: init_def)
  have d: "downloadFailure offlineEnv = Some NetworkError"
    by (simp add: downloadFailure_def offlineEnv_def)
  show ?thesis
    using no_cache_download_fails[OF custom_neq c d] offlineEnv_configured[of "''1080p''"]
    by (simp add: errorWallpaper_def)
qed

subsection \<open>Single flight\<close>

text \<open>A call that finds no entry for its resolution waits for a promise of its own.\<close>

lemma getWallpaper_fresh:
  assumes "map_of (loadingPromises s) (loadingKey resolution) = None"
  shows "calls (getWallpaper e s resolution) = calls s @ [nextPromise s]"
  using assms by (simp add: getWallpaper_def Let_def)

text \<open>
  C8. In every run: while the deduplication map has an entry for a resolution, a further
  call of \<^verbatim>\<open>getWallpaper\<close> only joins the promise of that entry (it changes nothing else),
  which is not settled and whose operation is in progress; a call that finds no entry
  stores its promise at once, a promise no earlier call waits for, and requests nothing
  yet. When the first answer of a call comes, its promise is fulfilled and the entry
  removed, or its download is in flight and the entry stays; when that download settles,
  however it settles, the entry is removed and the promise holds one result for all who
  wait; the next call starts a fresh attempt under a promise no earlier call waits for.
\<close>

theorem getWallpaper_single_flight:
  assumes s: "s = run es init"
  shows "(map_of (loadingPromises s) (loadingKey resolution) = Some p \<longrightarrow>
            getWallpaper e s resolution = s\<lparr>calls := calls s @ [p]\<rparr>
            \<and> map_of (settled s) p = None
            \<and> (\<exists>t \<in> set (tasks s).
                  is_foreground t \<and> task_resolution t = resolution \<and> task_promise t = p))
       \<and> (map_of (loadingPromises s) (loadingKey resolution) = None \<longrightarrow>
            map_of (loadingPromises (getWallpaper e s resolution)) (loadingKey resolution)
              = Some (nextPromise s)
            \<and> calls (getWallpaper e s resolution) = calls s @ [nextPromise s]
            \<and> nextPromise s \<notin> set (calls s)
            \<and> tasks (getWallpaper e s resolution)
                = tasks s @ [Called (nextPromise s) resolution (shouldForceRefresh e s resolution)
            (getTodayCacheKey e resolution)]
            \<and> requests (getWallpaper e s resolution) = requests s)
       \<and> (i < length (tasks s) \<and> tasks s ! i = Called p resolution sr tk \<longrightarrow>
            map_of (loadingPromises s) (loadingKey resolution) = Some p
            \<and> calls (step e (LookupSettles i) s) = calls s
            \<and> ((map_of (loadingPromises (step e (LookupSettles i) s)) (loadingKey resolution) = None
                 \<and> fulfilled (step e (LookupSettles i) s) p)
               \<or> (map_of (loadingPromises (step e (LookupSettles i) s)) (loadingKey resolution)
                     = Some p
                  \<and> map_of (settled (step e (LookupSettles i) s)) p = None
                  \<and> tasks (step e (LookupSettles i) s) \<noteq> []
                  \<and> (\<exists>u sr' fb. last (tasks (step e (LookupSettles i) s))
                                   = Foreground p resolution u sr' fb))))
       \<and> (i < length (tasks s) \<and> tasks s ! i = Foreground p resolution u sr fb \<longrightarrow>
            map_of (loadingPromises s) (loadingKey resolution) = Some p
            \<and> map_of (loadingPromises (step e (DownloadSettles i) s)) (loadingKey resolution) = None
            \<and> (\<exists>w. map_of (settled (step e (DownloadSettles i) s)) p = Some (Inr w))
            \<and> calls (getWallpaper e' (step e (DownloadSettles i) s) resolution)
                = calls s @ [nextPromise s]
            \<and> nextPromise s \<notin> set (calls s))"
proof (intro conjI impI)
  have inv: "dedupInv s" unfolding s by (rule dedupInv_reachable)
  have fresh: "nextPromise s \<notin> set (calls s)"
    using dedupInv_callD[OF inv, of "nextPromise s"] by auto
  {
    assume a: "map_of (loadingPromises s) (loadingKey resolution) = Some p"
    show "getWallpaper e s resolution = s\<lparr>calls := calls s @ [p]\<rparr>"
      using a by (simp add: getWallpaper_def)
    from dedupInv_entryD[OF inv a] obtain t where t: "t \<in> set (inFlight s)"
      "task_resolution t = resolution" "task_promise t = p"
      by auto
    then have "p \<notin> fst ` set (settled s)" using dedupInv_taskD[OF inv t(1)] by simp
    then show "map_of (settled s) p = None" by (simp add: map_of_eq_None_iff)
    have "t \<in> set (tasks s)" "is_foreground t" using t(1) by (simp_all add: inFlight_def)
    then show "\<exists>t \<in> set (tasks s).
                  is_foreground t \<and> task_resolution t = resolution \<and> task_promise t = p"
      using t(2,3) by blast
  }
  {
    assume n: "map_of (loadingPromises s) (loadingKey resolution) = None"
    show "map_of (loadingPromises (getWallpaper e s resolution)) (loadingKey resolution)
              = Some (nextPromise s)"
      using n by (simp add: getWallpaper_def Let_def update_conv')
    show "calls (getWallpaper e s resolution) = calls s @ [nextPromise s]"
      by (rule getWallpaper_fresh[OF n])
    show "nextPromise s \<notin> set (calls s)" by (rule fresh)
    show "tasks (getWallpaper e s resolution)
                = tasks s @ [Called (nextPromise s) resolution (shouldForceRefresh e s resolution)
            (getTodayCacheKey e resolution)]"
      using n by (simp add: getWallpaper_def Let_def)
    show "requests (getWallpaper e s resolution) = requests s"
      using n by (simp add: getWallpaper_def Let_def)
  }
  {
    assume b: "i < length (tasks s) \<and> tasks s ! i = Called p resolution sr tk"
    then have i: "i < length (tasks s)" and t: "tasks s ! i = Called p resolution sr tk"
      by simp_all
    note f = lookupSettles_called[OF inv i t, of e]
    show "map_of (loadingPromises s) (loadingKey resolution) = Some p" using f by blast
    show "calls (step e (LookupSettles i) s) = calls s" using f by simp
    show "(map_of (loadingPromises (step e (LookupSettles i) s)) (loadingKey resolution) = None
                 \<and> fulfilled (step e (LookupSettles i) s) p)
               \<or> (map_of (loadingPromises (step e (LookupSettles i) s)) (loadingKey resolution)
                     = Some p
                  \<and> map_of (settled (step e (LookupSettles i) s)) p = None
                  \<and> tasks (step e (LookupSettles i) s) \<noteq> []
                  \<and> (\<exists>u sr' fb. last (tasks (step e (LookupSettles i) s))
                                   = Foreground p resolution u sr' fb))"
      using f unfolding fulfilled_def step.simps by blast
  }
  {
    assume b: "i < length (tasks s) \<and> tasks s ! i = Foreground p resolution u sr fb"
    then have i: "i < length (tasks s)" and t: "tasks s ! i = Foreground p resolution u sr fb"
      by simp_all
    note f = downloadSettles_foreground[OF inv i t, of e]
    show "map_of (loadingPromises s) (loadingKey resolution) = Some p" using f by simp
    show none: "map_of (loadingPromises (step e (DownloadSettles i) s)) (loadingKey resolution) = None"
      using f by simp
    show "\<exists>w. map_of (settled (step e (DownloadSettles i) s)) p = Some (Inr w)"
      using f by simp
    show "calls (getWallpaper e' (step e (DownloadSettles i) s) resolution)
            = calls s @ [nextPromise s]"
      using getWallpaper_fresh[OF none, of e'] f by simp
    show "nextPromise s \<notin> set (calls s)" by (rule fresh)
  }
qed

text \<open>The first call stores promise 0 and requests nothing; a second call in the same tick
  joins promise 0 and changes nothing else; the first answer leaves the download in
  flight; after the download has settled the third call gets promise 1.\<close>

theorem getWallpaper_single_flight_witness:
  "map_of (loadingPromises (getWallpaper onlineEnv init ''1080p'')) (loadingKey ''1080p'') = Some 0
   \<and> requests (getWallpaper onlineEnv init ''1080p'') = []
   \<and> getWallpaper onlineEnv (step onlineEnv (GetWallpaper ''1080p'') init) ''1080p''
     = (step onlineEnv (GetWallpaper ''1080p'') init)\<lparr>calls := [0, 0]\<rparr>
   \<and> map_of (loadingPromises afterRequest) (loadingKey ''1080p'') = Some 0
   \<and> map_of (settled afterRequest) 0 = None
   \<and> map_of (loadingPromises (step onlineEnv (DownloadSettles 0) afterRequest)) (loadingKey ''1080p'') = None
   \<and> (\<exists>w. map_of (settled (step onlineEnv (DownloadSettles 0) afterRequest)) 0 = Some (Inr w))
   \<and> calls (getWallpaper onlineEnv (step onlineEnv (DownloadSettles 0) afterRequest) ''1080p'') = [0, 1]"
proof -
  let ?s = "step onlineEnv (GetWallpaper ''1080p'') init"
  have sc: "?s = init\<lparr>loadingPromises := [(loadingKey ''1080p'', 0)],
       tasks := [Called 0 ''1080p'' True (getTodayCacheKey onlineEnv ''1080p'')], calls := [0], nextPromise := 1\<rparr>"
    by (simp add: afterCall_eq)
  have r0: "init = run [] init" by simp
  have r1: "?s = run [(onlineEnv, GetWallpaper ''1080p'')] init" by simp
  have r2: "afterRequest = run [(onlineEnv, GetWallpaper ''1080p''), (onlineEnv, LookupSettles 0)] init"
    by (simp add: afterRequest_def)
  have n0: "map_of (loadingPromises init) (loadingKey ''1080p'') = None" "nextPromise init = 0"
    "requests init = []"
    by (simp_all add: init_def)
  have a1: "map_of (loadingPromises ?s) (loadingKey ''1080p'') = Some 0" unfolding sc by simp
  have c1: "calls ?s = [0]" unfolding sc by simp
  have t1: "0 < length (tasks ?s) \<and>
            tasks ?s ! 0 = Called 0 ''1080p'' True (getTodayCacheKey onlineEnv ''1080p'')"
    unfolding sc by simp
  have ar: "step onlineEnv (LookupSettles 0) ?s = afterRequest" by (simp add: afterRequest_def)
  have b: "0 < length (tasks afterRequest) \<and>
           tasks afterRequest ! 0 = Foreground 0 ''1080p'' (getWallpaperUrl onlineEnv ''1080p'') True None"
    by (simp add: afterRequest_eq)
  have c: "calls afterRequest = [0]" "nextPromise afterRequest = 1"
    by (simp_all add: afterRequest_eq)
  have first: "map_of (loadingPromises (getWallpaper onlineEnv init ''1080p'')) (loadingKey ''1080p'')
                 = Some 0
               \<and> requests (getWallpaper onlineEnv init ''1080p'') = []"
    using getWallpaper_single_flight[OF r0, of "''1080p''" _ onlineEnv] n0 by simp
  have "getWallpaper onlineEnv ?s ''1080p'' = ?s\<lparr>calls := calls ?s @ [0]\<rparr>"
    using getWallpaper_single_flight[OF r1, of "''1080p''" 0 onlineEnv] a1 by blast
  then have j: "getWallpaper onlineEnv ?s ''1080p'' = ?s\<lparr>calls := [0, 0]\<rparr>"
    unfolding c1 by simp
  have "map_of (loadingPromises (step onlineEnv (LookupSettles 0) ?s)) (loadingKey ''1080p'') = None
          \<and> fulfilled (step onlineEnv (LookupSettles 0) ?s) 0
        \<or> map_of (loadingPromises (step onlineEnv (LookupSettles 0) ?s)) (loadingKey ''1080p'') = Some 0
          \<and> map_of (settled (step onlineEnv (LookupSettles 0) ?s)) 0 = None
          \<and> tasks (step onlineEnv (LookupSettles 0) ?s) \<noteq> []
          \<and> (\<exists>u sr' fb. last (tasks (step onlineEnv (LookupSettles 0) ?s))
                           = Foreground 0 ''1080p'' u sr' fb)"
    using getWallpaper_single_flight[OF r1, where resolution = "''1080p''" and p = 0
        and e = onlineEnv and i = 0 and sr = True and tk = "getTodayCacheKey onlineEnv ''1080p''"] t1
    by blast
  moreover have "\<not> fulfilled afterRequest 0" by (simp add: afterRequest_eq fulfilled_def init_def)
  ultimately have a: "map_of (loadingPromises afterRequest) (loadingKey ''1080p'') = Some 0"
    and s0: "map_of (settled afterRequest) 0 = None"
    unfolding ar by blast+
  have "map_of (loadingPromises (step onlineEnv (DownloadSettles 0) afterRequest)) (loadingKey ''1080p'') = None
   \<and> (\<exists>w. map_of (settled (step onlineEnv (DownloadSettles 0) afterRequest)) 0 = Some (Inr w))
   \<and> calls (getWallpaper onlineEnv (step onlineEnv (DownloadSettles 0) afterRequest) ''1080p'')
        = calls afterRequest @ [nextPromise afterRequest]"
    using getWallpaper_single_flight[OF r2, where resolution = "''1080p''" and p = 0
        and e = onlineEnv and i = 0 and u = "getWallpaperUrl onlineEnv ''1080p''" and sr = True
        and fb = None and e' = onlineEnv] b
    by blast
  then show ?thesis using first j a s0 c by simp
qed

subsection \<open>Cleanup\<close>

lemma delete_filter: "AList.delete k xs = filter (\<lambda>kv. fst kv \<noteq> k) xs"
  by (induction xs) auto

lemma cleanupLoop_filter:
  assumes "\<not> idbDeleteFails e"
  shows "cleanupLoop e c ks s
         = s\<lparr>idb := filter (\<lambda>kv. \<not> (fst kv \<in> set ks \<and> dateBefore c (fst kv))) (idb s)\<rparr>"
proof (induction ks arbitrary: s)
  case Nil
  then show ?case by simp
next
  case (Cons k ks)
  show ?case
  proof (cases "dateBefore c k")
    case False
    then have "cleanupLoop e c (k # ks) s = cleanupLoop e c ks s"
      by (simp add: dateBefore_def split: option.splits)
    also have "\<dots> = s\<lparr>idb := filter (\<lambda>kv. \<not> (fst kv \<in> set ks \<and> dateBefore c (fst kv))) (idb s)\<rparr>"
      by (rule Cons.IH)
    also have "filter (\<lambda>kv. \<not> (fst kv \<in> set ks \<and> dateBefore c (fst kv))) (idb s)
             = filter (\<lambda>kv. \<not> (fst kv \<in> set (k # ks) \<and> dateBefore c (fst kv))) (idb s)"
      using False by (intro filter_cong) auto
    finally show ?thesis .
  next
    case True
    let ?s1 = "s\<lparr>idb := AList.delete k (idb s)\<rparr>"
    have "cleanupLoop e c (k # ks) s = cleanupLoop e c ks ?s1"
      using True assms by (simp add: dateBefore_def idb_delete_def split: option.splits)
    also have "\<dots> = ?s1\<lparr>idb := filter (\<lambda>kv. \<not> (fst kv \<in> set ks \<and> dateBefore c (fst kv))) (idb ?s1)\<rparr>"
      by (rule Cons.IH)
    also have "filter (\<lambda>kv. \<not> (fst kv \<in> set ks \<and> dateBefore c (fst kv))) (idb ?s1)
             = filter (\<lambda>kv. \<not> (fst kv \<in> set (k # ks) \<and> dateBefore c (fst kv))) (idb s)"
      using True by (simp add: delete_filter, intro filter_cong) auto
    finally show ?thesis by simp
  qed
qed

lemma map_of_filter_key:
  "map_of (filter (\<lambda>kv. P (fst kv)) xs) k = (if P k then map_of xs k else None)"
  by (induction xs) auto

lemma cleanupExpiredCache_filter:
  assumes "\<not> idbReadFails e" and "\<not> idbDeleteFails e"
  shows "cleanupExpiredCache e s
         = s\<lparr>idb := filter (\<lambda>kv. \<not> expiredKey (threeDaysAgo e) (fst kv)) (idb s)\<rparr>"
proof -
  have "cleanupExpiredCache e s
        = cleanupLoop e (threeDaysAgo e)
            (filter (\<lambda>key. startsWith key ''wallpaper-optimized:'') (map fst (idb s))) s"
    using assms(1) by (simp add: cleanupExpiredCache_def idb_getAllKeys_def Let_def)
  also have "\<dots> = s\<lparr>idb := filter (\<lambda>kv. \<not> (fst kv \<in> set (filter (\<lambda>key. startsWith key ''wallpaper-optimized:'') (map fst (idb s)))
                \<and> dateBefore (threeDaysAgo e) (fst kv))) (idb s)\<rparr>"
    by (rule cleanupLoop_filter[OF assms(2)])
  also have "filter (\<lambda>kv. \<not> (fst kv \<in> set (filter (\<lambda>key. startsWith key ''wallpaper-optimized:'') (map fst (idb s)))
                \<and> dateBefore (threeDaysAgo e) (fst kv))) (idb s)
           = filter (\<lambda>kv. \<not> expiredKey (threeDaysAgo e) (fst kv)) (idb s)"
    by (intro filter_cong) (auto simp: expiredKey_def)
  finally show ?thesis .
qed

text \<open>
  C9. With a store that answers and a clock that shows a date from 1970 to 9999,
  \<^verbatim>\<open>cleanupExpiredCache\<close> deletes exactly the keys that start with the wallpaper prefix and
  whose date is before the date three days before the current local date; every other
  key keeps its entry, and nothing else of the state changes. For the cache keys and
  metadata keys of the four resolutions the date compared is the date of the key, and
  the comparison of the strings is the comparison of the calendar dates: the key of the
  day \<open>k\<close> days before the current date is deleted exactly when \<open>k\<close> is more than three, and
  the key of any date exactly when the date is before the day three days ago.
\<close>

theorem cleanupExpiredCache_effect:
  assumes "\<not> idbReadFails e" and "\<not> idbDeleteFails e" and "validDate (now e)"
  shows "cleanupExpiredCache e s
           = s\<lparr>idb := filter (\<lambda>kv. \<not> expiredKey (threeDaysAgo e) (fst kv)) (idb s)\<rparr>
       \<and> map_of (idb (cleanupExpiredCache e s)) key
           = (if expiredKey (threeDaysAgo e) key then None else map_of (idb s) key)
       \<and> (\<not> startsWith key ''wallpaper-optimized:'' \<longrightarrow> \<not> expiredKey (threeDaysAgo e) key)
       \<and> (r \<in> set resolutions \<and> k \<le> fst (now e) \<longrightarrow>
            expiredKey (threeDaysAgo e) (cacheKeyFor r (getLocalDateString (daysAgo k (now e))))
              = (3 < k)
            \<and> expiredKey (threeDaysAgo e)
                (cacheKeyFor r (getLocalDateString (daysAgo k (now e))) @ ''-metadata'')
              = (3 < k))
       \<and> (r \<in> set resolutions \<and> calendarDate dt \<longrightarrow>
            expiredKey (threeDaysAgo e) (cacheKeyFor r (getLocalDateString dt))
              = dateLess dt (daysAgo 3 (now e))
            \<and> expiredKey (threeDaysAgo e) (cacheKeyFor r (getLocalDateString dt) @ ''-metadata'')
              = dateLess dt (daysAgo 3 (now e)))"
proof (intro conjI impI)
  have c: "calendarDate (now e)" and y: "1970 \<le> fst (now e)"
    using validDate_calendar[OF assms(3)] by simp_all
  have c3: "calendarDate (daysAgo 3 (now e))" using daysAgo_calendar[OF c, of 3] y by simp
  show a: "cleanupExpiredCache e s
           = s\<lparr>idb := filter (\<lambda>kv. \<not> expiredKey (threeDaysAgo e) (fst kv)) (idb s)\<rparr>"
    by (rule cleanupExpiredCache_filter[OF assms(1,2)])
  show "map_of (idb (cleanupExpiredCache e s)) key
           = (if expiredKey (threeDaysAgo e) key then None else map_of (idb s) key)"
    unfolding a using map_of_filter_key[of "\<lambda>k. \<not> expiredKey (threeDaysAgo e) k" "idb s" key]
    by simp
  {
    assume "\<not> startsWith key ''wallpaper-optimized:''"
    then show "\<not> expiredKey (threeDaysAgo e) key" by (simp add: expiredKey_def)
  }
  {
    assume h: "r \<in> set resolutions \<and> k \<le> fst (now e)"
    then have r: "r \<in> set resolutions" and k: "k \<le> fst (now e)" by simp_all
    have ck: "calendarDate (daysAgo k (now e))" using daysAgo_calendar[OF c k] by simp
    have b: "dateLess (daysAgo k (now e)) (daysAgo 3 (now e)) = (3 < k)"
      using daysAgo_before[OF c k, of 3] y by simp
    show "expiredKey (threeDaysAgo e) (cacheKeyFor r (getLocalDateString (daysAgo k (now e))))
              = (3 < k)"
      unfolding threeDaysAgo_def expiredKey_date(1)[OF r ck c3] by (rule b)
    show "expiredKey (threeDaysAgo e)
                (cacheKeyFor r (getLocalDateString (daysAgo k (now e))) @ ''-metadata'')
              = (3 < k)"
      unfolding threeDaysAgo_def expiredKey_date(2)[OF r ck c3] by (rule b)
  }
  {
    assume h: "r \<in> set resolutions \<and> calendarDate dt"
    then have r: "r \<in> set resolutions" and d: "calendarDate dt" by simp_all
    show "expiredKey (threeDaysAgo e) (cacheKeyFor r (getLocalDateString dt))
              = dateLess dt (daysAgo 3 (now e))"
      unfolding threeDaysAgo_def by (rule expiredKey_date(1)[OF r d c3])
    show "expiredKey (threeDaysAgo e) (cacheKeyFor r (getLocalDateString dt) @ ''-metadata'')
              = dateLess dt (daysAgo 3 (now e))"
      unfolding threeDaysAgo_def by (rule expiredKey_date(2)[OF r d c3])
  }
qed

lemma example_days_before:
  "daysAgo 7 (2024, 5, 15) = (2024, 5, 8)" "daysAgo 2 (2024, 5, 15) = (2024, 5, 13)"
proof -
  have n: "(7::nat) = Suc (Suc (Suc (Suc (Suc (Suc (Suc 0))))))" "(2::nat) = Suc (Suc 0)"
    by simp_all
  show "daysAgo 7 (2024, 5, 15) = (2024, 5, 8)" unfolding n(1) by simp
  show "daysAgo 2 (2024, 5, 15) = (2024, 5, 13)" unfolding n(2) by simp
qed

text \<open>On 15 May the entries of 8 May (seven days before) go, those of 12 May (three days
  before) and 13 May stay, and so do an entry dated 16 May and a key of another cache.\<close>

theorem cleanupExpiredCache_effect_witness:
  "cleanupExpiredCache laterEnv exampleStore
     = exampleStore\<lparr>idb :=
         [(cacheKeyFor ''4k'' ''2024-05-13'', ImageBlob (4096 * 1024) ''may13''),
          (cacheKeyFor ''1080p'' ''2024-05-12'', ImageBlob (2048 * 1024) ''may12''),
          (cacheKeyFor ''1080p'' ''2024-05-12'' @ ''-metadata'',
           MetadataBlob ''https://www.bing.com/may12.jpg'')]\<rparr>
   \<and> expiredKey (threeDaysAgo laterEnv) (cacheKeyFor ''1080p'' ''2024-05-08'')
   \<and> \<not> expiredKey (threeDaysAgo laterEnv) (cacheKeyFor ''1080p'' ''2024-05-12'')
   \<and> \<not> expiredKey (threeDaysAgo laterEnv) (cacheKeyFor ''1080p'' ''2024-05-16'')
   \<and> \<not> expiredKey (threeDaysAgo laterEnv) ''favicon:example.com''"
proof -
  have nr: "\<not> idbReadFails laterEnv" and nd: "\<not> idbDeleteFails laterEnv"
    by (simp_all add: laterEnv_fields)
  have n: "now laterEnv = (2024, 5, 15)" by (simp add: laterEnv_def)
  have v: "validDate (now laterEnv)" unfolding n by (simp add: validDate_def daysInMonth_def)
  have f: "filter (\<lambda>kv. \<not> expiredKey ''2024-05-12'' (fst kv)) (idb exampleStore)
     = [(cacheKeyFor ''4k'' ''2024-05-13'', ImageBlob (4096 * 1024) ''may13''),
          (cacheKeyFor ''1080p'' ''2024-05-12'', ImageBlob (2048 * 1024) ''may12''),
          (cacheKeyFor ''1080p'' ''2024-05-12'' @ ''-metadata'',
           MetadataBlob ''https://www.bing.com/may12.jpg'')]"
    by (simp add: exampleStore_def init_def expiredKey_def dateBefore_def startsWith_def
        cacheKeyFor_def isDigit_def)
  have p: "\<not> startsWith ''favicon:example.com'' ''wallpaper-optimized:''"
    by (simp add: startsWith_def)
  have d7: "getLocalDateString (daysAgo 7 (now laterEnv)) = ''2024-05-08''"
    unfolding n example_days_before by (simp add: isoDate_def pad4_def pad2_def digitChar_def)
  have d3: "getLocalDateString (daysAgo 3 (now laterEnv)) = ''2024-05-12''"
    unfolding n example_days by (simp add: isoDate_def pad4_def pad2_def digitChar_def)
  have k: "(7::nat) \<le> fst (now laterEnv)" "(3::nat) \<le> fst (now laterEnv)" unfolding n by simp_all
  have t: "threeDaysAgo laterEnv = ''2024-05-12''" by (rule example_dates)
  have c16: "calendarDate (2024, 5, 16)" by (simp add: daysInMonth_def)
  have d16: "getLocalDateString (2024, 5, 16) = ''2024-05-16''"
    by (simp add: isoDate_def pad4_def pad2_def digitChar_def)
  have l16: "\<not> dateLess (2024, 5, 16) (daysAgo 3 (now laterEnv))"
    unfolding n example_days by simp
  have "expiredKey (threeDaysAgo laterEnv) (cacheKeyFor ''1080p'' (getLocalDateString (2024, 5, 16)))
          = dateLess (2024, 5, 16) (daysAgo 3 (now laterEnv))"
    using cleanupExpiredCache_effect[OF nr nd v, where r = "''1080p''" and dt = "(2024, 5, 16)"]
      c16 resolutions_mem(1)
    by blast
  then have later: "\<not> expiredKey (threeDaysAgo laterEnv) (cacheKeyFor ''1080p'' ''2024-05-16'')"
    using l16 unfolding d16 by simp
  show ?thesis
    using cleanupExpiredCache_effect[OF nr nd v, where s = exampleStore
        and key = "''favicon:example.com''" and r = "''1080p''" and k = 7]
      cleanupExpiredCache_effect[OF nr nd v, where s = exampleStore
        and key = "''favicon:example.com''" and r = "''1080p''" and k = 3]
      f p k resolutions_mem(1) later
    unfolding d7 d3 t by simp
qed

subsection \<open>The custom resolution\<close>

text \<open>
  C10. For the resolution custom, \<^verbatim>\<open>_getWallpaperInternal\<close> changes nothing (no request,
  no cache write, no timer), and so does \<^verbatim>\<open>getWallpaper\<close> apart from its own bookkeeping,
  in the call as in the step that answers it, which settles the promise with the result
  of \<^verbatim>\<open>_getWallpaperInternal\<close> and starts no download; when the custom wallpaper manager
  answers, the result is the stored wallpaper with isFromCache, isToday and not
  needsUpdate, or, when none is stored, the static local default with isToday and neither
  isFromCache nor needsUpdate.
\<close>

theorem custom_wallpaper:
  "snd (getWallpaperInternal e s ''custom'') = s
   \<and> (customWallpaper e = Inr c \<longrightarrow>
        fst (getWallpaperInternal e s ''custom'') =
          Inr (case c of
                 None \<Rightarrow> localDefault
               | Some customUrl \<Rightarrow>
                   if customUrl \<noteq> [] then
                     \<lparr>url = customUrl, isFromCache = True, isToday = True, needsUpdate = False,
                      originalUrl = None\<rparr>
                   else localDefault))
   \<and> idb (getWallpaper e s ''custom'') = idb s
   \<and> requests (getWallpaper e s ''custom'') = requests s
   \<and> filter is_download (tasks (getWallpaper e s ''custom'')) = filter is_download (tasks s)
   \<and> retryTimers (getWallpaper e s ''custom'') = retryTimers s
   \<and> retryCounts (getWallpaper e s ''custom'') = retryCounts s
   \<and> localStorage (getWallpaper e s ''custom'') = localStorage s
   \<and> (i < length (tasks s) \<and> tasks s ! i = Called p ''custom'' sr tk \<longrightarrow>
        idb (lookupSettles e s i) = idb s
        \<and> requests (lookupSettles e s i) = requests s
        \<and> tasks (lookupSettles e s i) = take i (tasks s) @ drop (Suc i) (tasks s)
        \<and> retryTimers (lookupSettles e s i) = retryTimers s
        \<and> retryCounts (lookupSettles e s i) = retryCounts s
        \<and> localStorage (lookupSettles e s i) = localStorage s
        \<and> settled (lookupSettles e s i)
            = settled s @ [(p, fst (getWallpaperInternal e s ''custom''))])"
proof -
  have b: "snd (getWallpaperInternal_begin e s ''custom'') = s"
    and nr: "\<forall>u sr fb. fst (getWallpaperInternal_begin e s ''custom'') \<noteq> Inr (Requested u sr fb)"
    by (simp_all add: getWallpaperInternal_begin_def getWallpaperInternal_lookup_def
        split: sum.splits option.splits)
  obtain x where bx: "getWallpaperInternal_begin e s ''custom'' = (x, s)"
    using b by (cases "getWallpaperInternal_begin e s ''custom''") simp
  have 1: "snd (getWallpaperInternal e s ''custom'') = s"
    using bx nr by (simp add: getWallpaperInternal_def split: sum.splits started.splits)
  have 2: "customWallpaper e = Inr c \<longrightarrow>
        fst (getWallpaperInternal e s ''custom'') =
          Inr (case c of
                 None \<Rightarrow> localDefault
               | Some customUrl \<Rightarrow>
                   if customUrl \<noteq> [] then
                     \<lparr>url = customUrl, isFromCache = True, isToday = True, needsUpdate = False,
                      originalUrl = None\<rparr>
                   else localDefault)"
    by (simp add: getWallpaperInternal_def getWallpaperInternal_begin_def
        getWallpaperInternal_lookup_def catchAll_def split: option.splits)
  have 3: "idb (getWallpaper e s ''custom'') = idb s
   \<and> requests (getWallpaper e s ''custom'') = requests s
   \<and> filter is_download (tasks (getWallpaper e s ''custom'')) = filter is_download (tasks s)
   \<and> retryTimers (getWallpaper e s ''custom'') = retryTimers s
   \<and> retryCounts (getWallpaper e s ''custom'') = retryCounts s
   \<and> localStorage (getWallpaper e s ''custom'') = localStorage s"
    by (simp add: getWallpaper_def Let_def split: option.splits)
  have 4: "i < length (tasks s) \<and> tasks s ! i = Called p ''custom'' sr tk \<longrightarrow>
        idb (lookupSettles e s i) = idb s
        \<and> requests (lookupSettles e s i) = requests s
        \<and> tasks (lookupSettles e s i) = take i (tasks s) @ drop (Suc i) (tasks s)
        \<and> retryTimers (lookupSettles e s i) = retryTimers s
        \<and> retryCounts (lookupSettles e s i) = retryCounts s
        \<and> localStorage (lookupSettles e s i) = localStorage s
        \<and> settled (lookupSettles e s i)
            = settled s @ [(p, fst (getWallpaperInternal e s ''custom''))]"
    by (cases "customWallpaper e")
      (auto simp: lookupSettles_def getWallpaperInternal_def getWallpaperInternal_begin_def
        getWallpaperInternal_lookup_def catchAll_def Let_def split: option.splits)
  show ?thesis using 1 2 3 4 by blast
qed

text \<open>With a custom wallpaper stored: the result, and the promise of a call.\<close>

theorem custom_wallpaper_witness:
  "getWallpaperInternal customEnv init ''custom'' =
     (Inr \<lparr>url = ''blob:custom'', isFromCache = True, isToday = True, needsUpdate = False,
           originalUrl = None\<rparr>, init)
   \<and> settled (run [(customEnv, GetWallpaper ''custom''), (customEnv, LookupSettles 0)] init)
       = [(0, Inr \<lparr>url = ''blob:custom'', isFromCache = True, isToday = True,
                   needsUpdate = False, originalUrl = None\<rparr>)]"
proof -
  let ?s = "getWallpaper customEnv init ''custom''"
  have c: "customWallpaper customEnv = Inr (Some ''blob:custom'')"
    by (simp add: customEnv_def)
  have g: "getWallpaperInternal customEnv init ''custom'' =
     (Inr \<lparr>url = ''blob:custom'', isFromCache = True, isToday = True, needsUpdate = False,
           originalUrl = None\<rparr>, init)"
    using custom_wallpaper[of customEnv init "Some ''blob:custom''"] c
    by (cases "getWallpaperInternal customEnv init ''custom''") simp
  have t: "0 < length (tasks ?s) \<and> tasks ?s ! 0 = Called 0 ''custom'' True (getTodayCacheKey customEnv ''custom'')" "settled ?s = []"
    by (simp_all add: getWallpaper_def init_def shouldForceRefresh_def Let_def)
  have "settled (lookupSettles customEnv ?s 0)
          = settled ?s @ [(0, fst (getWallpaperInternal customEnv ?s ''custom''))]"
    using custom_wallpaper[of customEnv ?s "Some ''blob:custom''" 0 0 True
        "getTodayCacheKey customEnv ''custom''"] t(1) by blast
  moreover have "fst (getWallpaperInternal customEnv ?s ''custom'') =
      Inr \<lparr>url = ''blob:custom'', isFromCache = True, isToday = True, needsUpdate = False,
           originalUrl = None\<rparr>"
    using custom_wallpaper[of customEnv ?s "Some ''blob:custom''"] c by simp
  ultimately show ?thesis using g t(2) by simp
qed

end
